theory Spec2Isabelle
  imports Main "HOL-Library.Word"
begin

unbundle bit_operations_syntax

section \<open>The dmbus client of xen-dmbus.c\<close>

text \<open>
  The file embeds the receive buffer, the dispatcher, the reconnection logic and the send
  path of \<^verbatim>\<open>xen-dmbus.c\<close>. Every function of the C file that is modelled keeps its name.
  A C function that mutates \<^verbatim>\<open>struct service\<close> or calls into the host (v4v, the QEMU
  timer and descriptor registries, stderr, the consumer's callbacks) takes the state and
  returns the new one; what it asks of the host is appended to a trace, in call order.
  \<^verbatim>\<open>try_reconnect\<close>, \<^verbatim>\<open>fill_hash\<close> and \<^verbatim>\<open>dmbus_service_connect\<close> are not embedded: no property
  below is about them.
\<close>

type_synonym byte = "8 word"

subsection \<open>The protocol library\<close>

text \<open>
  \<^verbatim>\<open>libdmbus.h\<close> is not part of the sources. What the C file uses of it is a parameter:
  the size of \<^verbatim>\<open>struct dmbus_msg_hdr\<close>, \<^verbatim>\<open>DMBUS_MAX_MSG_LEN\<close>, the reading of the two header
  fields \<^verbatim>\<open>hdr.msg_type\<close> and \<^verbatim>\<open>hdr.msg_len\<close> from the storage a \<^verbatim>\<open>union dmbus_msg\<close> pointer
  points to, the writing of both fields, and the six type tags of the \<^verbatim>\<open>switch\<close>. The two
  fields are unsigned 32-bit values.
\<close>

record dmbus_proto =
  hdr_size :: nat
  max_msg_len :: nat
  msg_type :: "byte list \<Rightarrow> 32 word"
  msg_len :: "byte list \<Rightarrow> 32 word"
  set_hdr :: "32 word \<Rightarrow> 32 word \<Rightarrow> byte list \<Rightarrow> byte list"
  DMBUS_MSG_DOM0_INPUT_EVENT :: "32 word"
  DMBUS_MSG_DISPLAY_INFO :: "32 word"
  DMBUS_MSG_DISPLAY_EDID :: "32 word"
  DMBUS_MSG_DEVICE_MODEL_READY :: "32 word"
  DMBUS_MSG_INPUT_CONFIG :: "32 word"
  DMBUS_MSG_INPUT_CONFIG_RESET :: "32 word"

text \<open>The header is not empty, a header fits the buffer, and buffer offsets fit an \<^verbatim>\<open>int\<close>.\<close>

definition sizes_ok :: "dmbus_proto \<Rightarrow> bool" where
  "sizes_ok p \<longleftrightarrow> 0 < hdr_size p \<and> hdr_size p \<le> max_msg_len p \<and> max_msg_len p < 2 ^ 31"

text \<open>The header fields are read from the first \<open>hdr_size\<close> bytes and from nothing else.\<close>

definition hdr_local :: "dmbus_proto \<Rightarrow> bool" where
  "hdr_local p \<longleftrightarrow>
     (\<forall>a b. take (hdr_size p) a = take (hdr_size p) b \<longrightarrow>
        msg_type p a = msg_type p b \<and> msg_len p a = msg_len p b)"


text \<open>The \<^verbatim>\<open>case\<close> labels of a C \<^verbatim>\<open>switch\<close> are pairwise different.\<close>

definition known_tags :: "dmbus_proto \<Rightarrow> 32 word list" where
  "known_tags p =
     [DMBUS_MSG_DOM0_INPUT_EVENT p, DMBUS_MSG_DISPLAY_INFO p, DMBUS_MSG_DISPLAY_EDID p,
      DMBUS_MSG_DEVICE_MODEL_READY p, DMBUS_MSG_INPUT_CONFIG p, DMBUS_MSG_INPUT_CONFIG_RESET p]"

definition tags_ok :: "dmbus_proto \<Rightarrow> bool" where
  "tags_ok p \<longleftrightarrow> distinct (known_tags p)"

subsection \<open>The state\<close>

datatype errno = EINTR | EAGAIN | ECONNRESET | EOTHER nat

text \<open>The slots of \<^verbatim>\<open>struct dmbus_ops\<close> that the file reads: set (\<open>True\<close>) or \<^verbatim>\<open>NULL\<close>.\<close>

record dmbus_ops =
  dom0_input_event :: bool
  display_info :: bool
  display_edid :: bool
  input_config :: bool
  input_config_reset :: bool
  reconnect :: bool

datatype callback =
  Dom0_input_event | Display_info | Display_edid | Input_config | Input_config_reset

datatype message =
    Unrecognized_message_ID "32 word"
  | Remote_service_disconnected
  | Recv_error errno
  | Send_failed errno

text \<open>
  What the file asks of its collaborators. \<open>Set_fd_handler fd h\<close> is
  \<^verbatim>\<open>qemu_set_fd_handler(fd, h, NULL, s)\<close> with \<open>h = False\<close> for \<^verbatim>\<open>NULL\<close>; \<open>Call c m\<close> is the
  consumer's callback of slot \<open>c\<close> invoked with the fields of the frame \<open>m\<close>.
\<close>

datatype event =
    Set_fd_handler int bool
  | V4v_close int
  | Mod_timer int
  | Free_timer
  | Free_service
  | Fprintf message
  | Call callback "byte list"

text \<open>One result of \<^verbatim>\<open>v4v_recv\<close> that the peer and the host have in store.\<close>

datatype rx_event = Rx_data "byte list" | Rx_error errno

text \<open>One result of \<^verbatim>\<open>v4v_send\<close>: the transport takes up to so many bytes, or fails.\<close>

datatype tx_event = Tx_accept nat | Tx_error errno

text \<open>
  The fields of \<^verbatim>\<open>struct service\<close> that the modelled functions touch, then the host:
  \<open>reconnect_timer\<close> is the expiry time of the timer while it is pending, \<open>now\<close> is
  \<^verbatim>\<open>qemu_get_clock_ms(rt_clock)\<close>, \<open>rx\<close> and \<open>tx\<close> are the results the next transport calls
  will meet, \<open>wire\<close> is every byte the transport has accepted.
\<close>

record service =
  fd :: int
  ops :: "dmbus_ops option"
  buff :: "byte list"
  len :: int
  reconnect_timer :: "int option"
  now :: int
  rx :: "rx_event list"
  tx :: "tx_event list"
  wire :: "byte list"
  trace :: "event list"

subsection \<open>The host\<close>

definition emit :: "event \<Rightarrow> service \<Rightarrow> service" where
  "emit e s = s\<lparr>trace := trace s @ [e]\<rparr>"

definition qemu_timer_pending :: "service \<Rightarrow> bool" where
  "qemu_timer_pending s \<longleftrightarrow> reconnect_timer s \<noteq> None"

definition qemu_set_fd_handler :: "bool \<Rightarrow> service \<Rightarrow> service" where
  "qemu_set_fd_handler h s = emit (Set_fd_handler (fd s) h) s"

definition v4v_close :: "service \<Rightarrow> service" where
  "v4v_close s = emit (V4v_close (fd s)) s"

definition fprintf_stderr :: "message \<Rightarrow> service \<Rightarrow> service" where
  "fprintf_stderr m s = emit (Fprintf m) s"

definition qemu_mod_timer :: "int \<Rightarrow> service \<Rightarrow> service" where
  "qemu_mod_timer t s = emit (Mod_timer t) (s\<lparr>reconnect_timer := Some t\<rparr>)"

text \<open>
  Modelled from the spec: \<^verbatim>\<open>qemu_free_timer\<close> (\<^verbatim>\<open>qemu-timer.c\<close> is not part of the sources) is
  the scheduler's \<^verbatim>\<open>cancelTimer(handle)\<close>: afterwards the timer is not armed.
\<close>

definition qemu_free_timer :: "service \<Rightarrow> service" where
  "qemu_free_timer s = emit Free_timer (s\<lparr>reconnect_timer := None\<rparr>)"

definition free :: "service \<Rightarrow> service" where
  "free s = emit Free_service s"

text \<open>
  \<^verbatim>\<open>v4v_recv(fd, buf, n, flags)\<close> on a byte stream: it returns at most \<open>n\<close> of the bytes
  that are there and leaves the others for the next call. When nothing is in store, a
  call with \<^verbatim>\<open>MSG_DONTWAIT\<close> fails with \<^verbatim>\<open>EAGAIN\<close> and a blocking call meets the end of the
  connection. The list is what the peer has sent when the call is made; it says nothing
  of what the peer sends later, so a peer that goes on sending is not a list but a list
  that grows between two calls.
\<close>

datatype recv_rc = Rc_bytes "byte list" | Rc_error errno

fun v4v_recv :: "bool \<Rightarrow> nat \<Rightarrow> rx_event list \<Rightarrow> recv_rc \<times> rx_event list" where
  "v4v_recv dontwait n [] = (if dontwait then Rc_error EAGAIN else Rc_bytes [], [])"
| "v4v_recv dontwait n (Rx_error e # es) = (Rc_error e, es)"
| "v4v_recv dontwait n (Rx_data bs # es) =
     (if length bs \<le> n then (Rc_bytes bs, es)
      else (Rc_bytes (take n bs), Rx_data (drop n bs) # es))"

text \<open>
  \<^verbatim>\<open>v4v_send(fd, buf, n, 0)\<close>: the number of bytes taken, at most \<open>n\<close>, or a failure.
  When nothing is in store the peer is gone.
\<close>

datatype send_rc = Sent nat | Send_error errno

fun v4v_send :: "nat \<Rightarrow> tx_event list \<Rightarrow> send_rc \<times> tx_event list" where
  "v4v_send n [] = (Send_error ECONNRESET, [])"
| "v4v_send n (Tx_error e # ts) = (Send_error e, ts)"
| "v4v_send n (Tx_accept k # ts) = (Sent (min k n), ts)"

subsection \<open>The C functions\<close>

text \<open>
  Where a function returns an \<open>option\<close>, \<open>None\<close> is a call with no defined result: the C
  reads or writes outside an object, or the loop never ends.
\<close>

text \<open>An \<^verbatim>\<open>int\<close> compared with a \<^verbatim>\<open>size_t\<close> is converted to \<^verbatim>\<open>size_t\<close> first.\<close>

definition lt_size_t :: "int \<Rightarrow> nat \<Rightarrow> bool" where
  "lt_size_t i n \<longleftrightarrow> nat (i mod 2 ^ 64) < n"

text \<open>An \<^verbatim>\<open>int\<close> compared with the 32-bit unsigned \<^verbatim>\<open>msg_len\<close> is converted to unsigned.\<close>

definition lt_u32 :: "int \<Rightarrow> 32 word \<Rightarrow> bool" where
  "lt_u32 i w \<longleftrightarrow> (word_of_int i :: 32 word) < w"

definition handle_message :: "dmbus_proto \<Rightarrow> service \<Rightarrow> service" where
  "handle_message p s =
     (case ops s of
        None \<Rightarrow> s
      | Some h \<Rightarrow>
          (let t = msg_type p (buff s);
               m = take (unat (msg_len p (buff s))) (buff s)
           in if t = DMBUS_MSG_DOM0_INPUT_EVENT p then
                (if dom0_input_event h then emit (Call Dom0_input_event m) s else s)
              else if t = DMBUS_MSG_DISPLAY_INFO p then
                (if display_info h then emit (Call Display_info m) s else s)
              else if t = DMBUS_MSG_DISPLAY_EDID p then
                (if display_edid h then emit (Call Display_edid m) s else s)
              else if t = DMBUS_MSG_DEVICE_MODEL_READY p then s
              else if t = DMBUS_MSG_INPUT_CONFIG p then
                (if input_config h then emit (Call Input_config m) s else s)
              else if t = DMBUS_MSG_INPUT_CONFIG_RESET p then
                (if input_config_reset h then emit (Call Input_config_reset m) s else s)
              else fprintf_stderr (Unrecognized_message_ID t) s))"

text \<open>
  \<^verbatim>\<open>memmove(buff, buff + off, n)\<close> inside the array \<open>b\<close>: the \<open>n\<close> bytes from \<open>off\<close> on
  move to the front, the bytes behind them stay.
\<close>

definition memmove :: "byte list \<Rightarrow> int \<Rightarrow> int \<Rightarrow> byte list option" where
  "memmove b off n =
     (if 0 \<le> off \<and> 0 \<le> n \<and> off + n \<le> int (length b)
      then Some (take (nat n) (drop (nat off) b) @ drop (nat n) b)
      else None)"

definition pop_message :: "dmbus_proto \<Rightarrow> service \<Rightarrow> service option" where
  "pop_message p s =
     (let l = sint (msg_len p (buff s))
      in if lt_size_t (len s) (hdr_size p) \<or> len s < l then Some s
         else (case memmove (buff s) l (len s - l) of
                 None \<Rightarrow> None
               | Some b \<Rightarrow> Some (s\<lparr>buff := b, len := len s - l\<rparr>)))"

definition handle_disconnect :: "service \<Rightarrow> service" where
  "handle_disconnect s =
     (if qemu_timer_pending s then s
      else (qemu_mod_timer (now s + 1000)
             \<circ> fprintf_stderr Remote_service_disconnected
             \<circ> v4v_close
             \<circ> qemu_set_fd_handler False) s)"

text \<open>
  \<^verbatim>\<open>v4v_recv(s->fd, s->buff + s->len, sizeof(s->buff) - s->len, flags)\<close>: the bytes
  received are in the buffer behind the valid prefix when the call returns; \<open>len\<close> is
  not touched.
\<close>

definition recv_buff :: "dmbus_proto \<Rightarrow> bool \<Rightarrow> service \<Rightarrow> (recv_rc \<times> service) option" where
  "recv_buff p dontwait s =
     (if 0 \<le> len s \<and> len s \<le> int (max_msg_len p) \<and> length (buff s) = max_msg_len p then
        (case v4v_recv dontwait (max_msg_len p - nat (len s)) (rx s) of
           (Rc_bytes bs, es) \<Rightarrow>
             Some (Rc_bytes bs,
                   s\<lparr>rx := es,
                     buff := take (nat (len s)) (buff s) @ bs
                             @ drop (nat (len s) + length bs) (buff s)\<rparr>)
         | (Rc_error e, es) \<Rightarrow> Some (Rc_error e, s\<lparr>rx := es\<rparr>))
      else None)"

text \<open>The condition of the \<^verbatim>\<open>while\<close> of \<^verbatim>\<open>sync_recv\<close>: no whole frame is at the front.\<close>

definition incomplete :: "dmbus_proto \<Rightarrow> service \<Rightarrow> bool" where
  "incomplete p s \<longleftrightarrow> lt_size_t (len s) (hdr_size p) \<or> lt_u32 (len s) (msg_len p (buff s))"

fun rx_size :: "rx_event list \<Rightarrow> nat" where
  "rx_size [] = 0"
| "rx_size (Rx_data bs # es) = Suc (length bs) + rx_size es"
| "rx_size (Rx_error e # es) = Suc (rx_size es)"

lemma v4v_recv_error_size:
  "v4v_recv d n es = (Rc_error e, es') \<Longrightarrow> es \<noteq> [] \<Longrightarrow> rx_size es' < rx_size es"
  by (cases "(d, n, es)" rule: v4v_recv.cases) (auto split: if_splits)

lemma v4v_recv_bytes_size:
  "v4v_recv d n es = (Rc_bytes bs, es') \<Longrightarrow> bs \<noteq> [] \<Longrightarrow> rx_size es' < rx_size es"
  by (cases "(d, n, es)" rule: v4v_recv.cases) (auto split: if_splits)

lemma v4v_recv_EINTR_size:
  "v4v_recv d n es = (Rc_error EINTR, es') \<Longrightarrow> rx_size es' < rx_size es"
  by (cases "(d, n, es)" rule: v4v_recv.cases) (auto split: if_splits)

lemma recv_buff_bytes_size:
  "recv_buff p d s = Some (Rc_bytes bs, s') \<Longrightarrow> bs \<noteq> [] \<Longrightarrow> rx_size (rx s') < rx_size (rx s)"
  by (auto simp: recv_buff_def split: if_splits prod.splits recv_rc.splits
           dest: v4v_recv_bytes_size)

lemma recv_buff_EINTR_size:
  "recv_buff p d s = Some (Rc_error EINTR, s') \<Longrightarrow> rx_size (rx s') < rx_size (rx s)"
  by (auto simp: recv_buff_def split: if_splits prod.splits recv_rc.splits
           dest: v4v_recv_EINTR_size)

text \<open>
  \<^verbatim>\<open>sync_recv\<close> returns \<^verbatim>\<open>s->buff\<close> or \<^verbatim>\<open>NULL\<close>: \<open>True\<close> stands for the pointer, \<open>False\<close> for
  \<^verbatim>\<open>NULL\<close>.
\<close>

function sync_recv :: "dmbus_proto \<Rightarrow> service \<Rightarrow> (bool \<times> service) option" where
  "sync_recv p s =
     (if incomplete p s then
        (case recv_buff p False s of
           None \<Rightarrow> None
         | Some (Rc_bytes bs, s1) \<Rightarrow>
             if bs = [] then Some (False, handle_disconnect s1)
             else sync_recv p (s1\<lparr>len := len s1 + int (length bs)\<rparr>)
         | Some (Rc_error e, s1) \<Rightarrow>
             if e = EINTR then sync_recv p s1
             else Some (False, fprintf_stderr (Recv_error e) s1))
      else Some (True, s))"
  by pat_completeness auto
termination
  by (relation "measure (\<lambda>(p, s). rx_size (rx s))")
     (auto dest: recv_buff_bytes_size recv_buff_EINTR_size)

declare sync_recv.simps [simp del]

text \<open>The condition of the dispatch loop of \<^verbatim>\<open>dmbus_fd_handler\<close>: a whole frame is at the front.\<close>

definition complete :: "dmbus_proto \<Rightarrow> service \<Rightarrow> bool" where
  "complete p s \<longleftrightarrow>
     \<not> lt_size_t (len s) (hdr_size p) \<and> \<not> lt_u32 (len s) (msg_len p (buff s))"

text \<open>
  The \<^verbatim>\<open>do ... while (rc <= 0)\<close> of \<^verbatim>\<open>dmbus_fd_handler\<close>: \<open>False\<close> when the handler returns
  from inside the loop, \<open>True\<close> when the loop ends with bytes received.
\<close>

function dmbus_fd_handler_read :: "dmbus_proto \<Rightarrow> service \<Rightarrow> (bool \<times> service) option" where
  "dmbus_fd_handler_read p s =
     (case recv_buff p True s of
        None \<Rightarrow> None
      | Some (Rc_bytes bs, s1) \<Rightarrow>
          if bs = [] then Some (False, handle_disconnect s1)
          else Some (True, s1\<lparr>len := len s1 + int (length bs)\<rparr>)
      | Some (Rc_error e, s1) \<Rightarrow>
          if e = EINTR then dmbus_fd_handler_read p s1
          else Some (False, fprintf_stderr (Recv_error e) s1))"
  by pat_completeness auto
termination
  by (relation "measure (\<lambda>(p, s). rx_size (rx s))")
     (auto dest: recv_buff_EINTR_size)

declare dmbus_fd_handler_read.simps [simp del]

partial_function (option) dmbus_fd_handler_dispatch :: "dmbus_proto \<Rightarrow> service \<Rightarrow> service option"
where
  "dmbus_fd_handler_dispatch p s =
     (if complete p s then
        (case pop_message p (handle_message p s) of
           None \<Rightarrow> None
         | Some s1 \<Rightarrow> dmbus_fd_handler_dispatch p s1)
      else Some s)"

declare dmbus_fd_handler_dispatch.simps [code]

definition dmbus_fd_handler :: "dmbus_proto \<Rightarrow> service \<Rightarrow> service option" where
  "dmbus_fd_handler p s =
     (case dmbus_fd_handler_read p s of
        None \<Rightarrow> None
      | Some (got, s1) \<Rightarrow>
          if \<not> got then Some s1
          else (case sync_recv p s1 of
                  None \<Rightarrow> None
                | Some (m, s2) \<Rightarrow>
                    if \<not> m then Some s2 else dmbus_fd_handler_dispatch p s2))"

text \<open>
  The \<^verbatim>\<open>while (m->hdr.msg_type != type)\<close> of \<^verbatim>\<open>dmbus_sync_recv\<close>: \<open>False\<close> when a
  \<^verbatim>\<open>sync_recv\<close> inside it returns \<^verbatim>\<open>NULL\<close>.
\<close>

partial_function (option) dmbus_sync_recv_loop ::
  "dmbus_proto \<Rightarrow> int \<Rightarrow> service \<Rightarrow> (bool \<times> service) option"
where
  "dmbus_sync_recv_loop p type s =
     (if msg_type p (buff s) \<noteq> word_of_int type then
        (case pop_message p (handle_message p s) of
           None \<Rightarrow> None
         | Some s1 \<Rightarrow>
             (case sync_recv p s1 of
                None \<Rightarrow> None
              | Some (m, s2) \<Rightarrow>
                  if \<not> m then Some (False, s2) else dmbus_sync_recv_loop p type s2))
      else Some (True, s))"

declare dmbus_sync_recv_loop.simps [code]

text \<open>
  The same loop while the other end goes on sending: \<open>sent\<close> are the results that the peer
  adds to those in store while the loop dispatches and pops a frame, before the loop
  reads again. With \<open>sent = []\<close> it is the loop above.
\<close>

partial_function (option) dmbus_sync_recv_loop_peer ::
  "rx_event list \<Rightarrow> dmbus_proto \<Rightarrow> int \<Rightarrow> service \<Rightarrow> (bool \<times> service) option"
where
  "dmbus_sync_recv_loop_peer sent p type s =
     (if msg_type p (buff s) \<noteq> word_of_int type then
        (case pop_message p (handle_message p s) of
           None \<Rightarrow> None
         | Some s1 \<Rightarrow>
             (case sync_recv p (s1\<lparr>rx := rx s1 @ sent\<rparr>) of
                None \<Rightarrow> None
              | Some (m, s2) \<Rightarrow>
                  if \<not> m then Some (False, s2)
                  else dmbus_sync_recv_loop_peer sent p type s2))
      else Some (True, s))"

declare dmbus_sync_recv_loop_peer.simps [code]

text \<open>
  The result of \<^verbatim>\<open>dmbus_sync_recv\<close>: the \<^verbatim>\<open>int\<close> returned, the bytes that \<^verbatim>\<open>memcpy\<close> wrote
  to \<^verbatim>\<open>data\<close> (none when the call fails), the state.
\<close>

definition dmbus_sync_recv ::
  "dmbus_proto \<Rightarrow> service \<Rightarrow> int \<Rightarrow> nat \<Rightarrow> (int \<times> byte list \<times> service) option" where
  "dmbus_sync_recv p s type sz =
     (case sync_recv p s of
        None \<Rightarrow> None
      | Some (m, s1) \<Rightarrow>
          if \<not> m then Some (- 1, [], s1)
          else (case dmbus_sync_recv_loop p type s1 of
                  None \<Rightarrow> None
                | Some (m, s2) \<Rightarrow>
                    if \<not> m then Some (- 1, [], s2)
                    else (let n = (if sz > unat (msg_len p (buff s2))
                                      then unat (msg_len p (buff s2)) else sz)
                          in if n \<le> length (buff s2) then
                               (case pop_message p s2 of
                                  None \<Rightarrow> None
                                | Some s3 \<Rightarrow>
                                    Some (sint (word_of_nat n :: 32 word),
                                          take n (buff s2), s3))
                             else None)))"

definition dmbus_service_disconnect :: "service \<Rightarrow> service" where
  "dmbus_service_disconnect s =
     (free \<circ> v4v_close \<circ> qemu_free_timer \<circ> qemu_set_fd_handler False) s"

lemma v4v_send_Sent_length:
  "v4v_send n ts = (Sent k, ts') \<Longrightarrow> length ts' < length ts"
  by (cases "(n, ts)" rule: v4v_send.cases) auto

text \<open>
  The \<^verbatim>\<open>while (b < len)\<close> of \<^verbatim>\<open>dmbus_send\<close> over the stamped buffer \<open>d\<close>, with the \<^verbatim>\<open>int\<close>
  that the function returns.
\<close>

function dmbus_send_loop :: "byte list \<Rightarrow> nat \<Rightarrow> nat \<Rightarrow> service \<Rightarrow> int \<times> service" where
  "dmbus_send_loop d n b s =
     (if b < n then
        (case v4v_send (n - b) (tx s) of
           (Send_error e, ts) \<Rightarrow>
             (- 1, (if e = ECONNRESET then handle_disconnect (s\<lparr>tx := ts\<rparr>)
                    else fprintf_stderr (Send_failed e) (s\<lparr>tx := ts\<rparr>)))
         | (Sent k, ts) \<Rightarrow>
             dmbus_send_loop d n (b + k) (s\<lparr>tx := ts, wire := wire s @ take k (drop b d)\<rparr>))
      else (sint (word_of_nat b :: 32 word), s))"
  by pat_completeness auto
termination
  by (relation "measure (\<lambda>(d, n, b, s). length (tx s))")
     (auto dest: v4v_send_Sent_length [OF sym])

declare dmbus_send_loop.simps [simp del]


section \<open>Notions of the statements\<close>

text \<open>
  The invariant of the buffer: \<open>len\<close> is between 0 and the capacity \<^verbatim>\<open>DMBUS_MAX_MSG_LEN\<close>,
  which is the size of the array \<open>buff\<close>.
\<close>

definition buf_inv :: "dmbus_proto \<Rightarrow> service \<Rightarrow> bool" where
  "buf_inv p s \<longleftrightarrow>
     0 \<le> len s \<and> len s \<le> int (max_msg_len p) \<and> length (buff s) = max_msg_len p"

text \<open>
  \<open>pending s\<close> is the valid prefix of the buffer; \<open>rx_bytes es\<close> are the bytes that the
  results \<open>es\<close> will deliver; \<open>rx_alive es\<close> says that each of them delivers bytes or is
  an interrupted call, so that the connection stays up.
\<close>

definition pending :: "service \<Rightarrow> byte list" where
  "pending s = take (nat (len s)) (buff s)"

fun rx_bytes :: "rx_event list \<Rightarrow> byte list" where
  "rx_bytes [] = []"
| "rx_bytes (Rx_data bs # es) = bs @ rx_bytes es"
| "rx_bytes (Rx_error e # es) = rx_bytes es"

fun rx_alive :: "rx_event list \<Rightarrow> bool" where
  "rx_alive [] \<longleftrightarrow> True"
| "rx_alive (Rx_data bs # es) \<longleftrightarrow> bs \<noteq> [] \<and> rx_alive es"
| "rx_alive (Rx_error e # es) \<longleftrightarrow> e = EINTR \<and> rx_alive es"

text \<open>
  The bytes \<open>f\<close> are one frame: a header and a payload that fit the buffer, of the length
  that the header declares.
\<close>

definition frame :: "dmbus_proto \<Rightarrow> byte list \<Rightarrow> bool" where
  "frame p f \<longleftrightarrow>
     hdr_size p \<le> length f \<and> length f \<le> max_msg_len p \<and> unat (msg_len p f) = length f"

text \<open>
  The dispatch of a frame as the spec words it (4.2), independent of \<open>handle_message\<close>:
  the catalog gives each recognized type tag one slot of the capability table; a frame
  whose slot holds a handler is handed to that handler; a frame whose slot is unset is
  ignored in silence; the device-model-ready tag is a no-op; an unrecognized tag is
  logged and the frame ignored.
\<close>

definition slot_of :: "dmbus_proto \<Rightarrow> 32 word \<Rightarrow> callback option" where
  "slot_of p =
     map_of [(DMBUS_MSG_DOM0_INPUT_EVENT p, Dom0_input_event),
             (DMBUS_MSG_DISPLAY_INFO p, Display_info),
             (DMBUS_MSG_DISPLAY_EDID p, Display_edid),
             (DMBUS_MSG_INPUT_CONFIG p, Input_config),
             (DMBUS_MSG_INPUT_CONFIG_RESET p, Input_config_reset)]"

fun registered :: "dmbus_ops \<Rightarrow> callback \<Rightarrow> bool" where
  "registered h Dom0_input_event = dom0_input_event h"
| "registered h Display_info = display_info h"
| "registered h Display_edid = display_edid h"
| "registered h Input_config = input_config h"
| "registered h Input_config_reset = input_config_reset h"

definition spec_dispatch :: "dmbus_proto \<Rightarrow> dmbus_ops \<Rightarrow> byte list \<Rightarrow> event list" where
  "spec_dispatch p h f =
     (if msg_type p f = DMBUS_MSG_DEVICE_MODEL_READY p then []
      else (case slot_of p (msg_type p f) of
              Some c \<Rightarrow> if registered h c then [Call c f] else []
            | None \<Rightarrow> [Fprintf (Unrecognized_message_ID (msg_type p f))]))"

text \<open>
  The same for the table of a service, which may be absent: then \<open>handle_message\<close> returns
  before it looks at the frame, and nothing is dispatched.
\<close>

abbreviation dispatched :: "dmbus_proto \<Rightarrow> dmbus_ops option \<Rightarrow> byte list \<Rightarrow> event list" where
  "dispatched p ho f \<equiv> (case ho of None \<Rightarrow> [] | Some h \<Rightarrow> spec_dispatch p h f)"

text \<open>The states at the head of the dispatch loop of \<open>dmbus_fd_handler\<close> started in \<open>s\<close>.\<close>

inductive fd_front :: "dmbus_proto \<Rightarrow> service \<Rightarrow> service \<Rightarrow> bool" for p where
  fd_here: "fd_front p s s"
| fd_next: "complete p s \<Longrightarrow> pop_message p (handle_message p s) = Some s1 \<Longrightarrow> fd_front p s1 x \<Longrightarrow>
         fd_front p s x"

section \<open>An instance of the protocol library\<close>

text \<open>
  A header of eight bytes, the type then the length, both little-endian, a buffer of 24
  bytes, and the tags 1 to 6: the instance at which the theorems below are evaluated.
\<close>

definition le32 :: "byte list \<Rightarrow> 32 word" where
  "le32 bs = foldr (\<lambda>b w. ucast b OR push_bit 8 w) (take 4 bs) 0"

definition le32_bytes :: "32 word \<Rightarrow> byte list" where
  "le32_bytes w = [ucast w, ucast (drop_bit 8 w), ucast (drop_bit 16 w), ucast (drop_bit 24 w)]"

definition proto8 :: dmbus_proto where
  "proto8 =
     \<lparr>hdr_size = 8, max_msg_len = 24,
      msg_type = (\<lambda>b. le32 (take 4 (take 8 b))),
      msg_len = (\<lambda>b. le32 (drop 4 (take 8 b))),
      set_hdr = (\<lambda>t l d. le32_bytes t @ le32_bytes l @ drop 8 d),
      DMBUS_MSG_DOM0_INPUT_EVENT = 1, DMBUS_MSG_DISPLAY_INFO = 2, DMBUS_MSG_DISPLAY_EDID = 3,
      DMBUS_MSG_DEVICE_MODEL_READY = 4, DMBUS_MSG_INPUT_CONFIG = 5,
      DMBUS_MSG_INPUT_CONFIG_RESET = 6\<rparr>"

definition all_ops :: dmbus_ops where
  "all_ops =
     \<lparr>dom0_input_event = True, display_info = True, display_edid = True,
      input_config = True, input_config_reset = True, reconnect = True\<rparr>"

definition no_ops :: dmbus_ops where
  "no_ops = \<lparr>dom0_input_event = False, display_info = False, display_edid = False,
      input_config = False, input_config_reset = False, reconnect = False\<rparr>"

text \<open>A connected service with an empty buffer of \<open>n\<close> bytes and nothing in store.\<close>

definition idle :: "nat \<Rightarrow> service" where
  "idle n =
     \<lparr>fd = 3, ops = Some all_ops, buff = replicate n 0, len = 0, reconnect_timer = None,
      now = 0, rx = [], tx = [], wire = [], trace = []\<rparr>"

text \<open>
  Sample states: a buffer of twelve valid bytes with a nine-byte frame at the front, and
  the same after dispatch and pop; a service whose reconnection timer is armed; a service
  without capability table that holds a frame with an unknown tag; a service that holds
  one frame with the tag \<open>t\<close>; an idle service with the transport results \<open>es\<close> ahead.
\<close>

definition st12 :: service where
  "st12 = (idle 24)\<lparr>buff := [1,0,0,0,9,0,0,0,7,2,0,0,0,8,0,0,0,5,5,5,5,5,5,5], len := 12\<rparr>"

definition frame_Y :: "byte list" where "frame_Y = [1,0,0,0,9,0,0,0,7]"

definition st12_popped :: service where
  "st12_popped = st12\<lparr>buff := [2,0,0,0,9,0,0,0,7,2,0,0,0,8,0,0,0,5,5,5,5,5,5,5], len := 3,
     trace := [Call Dom0_input_event frame_Y]\<rparr>"

text \<open>
  A buffer that holds \<open>frame_Y\<close> and nothing else, and the same after dispatch and pop.
\<close>

definition y_head :: service where
  "y_head = (idle 24)\<lparr>buff := frame_Y @ replicate 15 0, len := 9\<rparr>"

definition y_popped :: service where
  "y_popped = y_head\<lparr>len := 0, trace := [Call Dom0_input_event frame_Y]\<rparr>"

definition armed :: service where
  "armed = (idle 24)\<lparr>reconnect_timer := Some 1000, rx := [Rx_data []],
                      tx := [Tx_error ECONNRESET]\<rparr>"

definition no_table :: service where
  "no_table = (idle 24)\<lparr>ops := None, buff := [99,0,0,0,8,0,0,0] @ replicate 16 0, len := 8\<rparr>"

definition tagged :: "byte \<Rightarrow> dmbus_ops \<Rightarrow> service" where
  "tagged t h = (idle 24)\<lparr>ops := Some h, buff := [t,0,0,0,8,0,0,0] @ replicate 16 0, len := 8\<rparr>"

definition rx_only :: "rx_event list \<Rightarrow> service" where
  "rx_only es = (idle 24)\<lparr>rx := es\<rparr>"

definition hello :: "byte list" where
  "hello = [0,0,0,0,0,0,0,0,104,105]"

text \<open>
  A run with three frames: \<open>frame_Y\<close> (dom0 input event, one byte of payload), \<open>frame_Z\<close>
  (a tag the dispatcher does not know) and \<open>frame_X\<close> (display info, two bytes of payload)
  arrive in two reads that do not end at frame boundaries, with an interrupted read
  between them, followed by the first two bytes of a fourth frame. \<open>yzx_fd\<close> is the state
  in which \<open>dmbus_fd_handler\<close> leaves it, \<open>yzx_recv\<close> the one in which \<open>dmbus_sync_recv\<close>
  for the type of \<open>frame_X\<close> does.
\<close>

definition frame_Z :: "byte list" where "frame_Z = [99,0,0,0,8,0,0,0]"

definition frame_X :: "byte list" where "frame_X = [2,0,0,0,10,0,0,0,104,105]"

definition yzx :: service where
  "yzx = (idle 24)\<lparr>rx := [Rx_data (frame_Y @ take 3 frame_Z), Rx_error EINTR,
                          Rx_data (drop 3 frame_Z @ frame_X @ [3, 0])]\<rparr>"

definition yzx_fd :: service where
  "yzx_fd = yzx\<lparr>buff := [99,0,0,0,9,0,0,0,7,99,0,0] @ replicate 12 0, len := 3,
     rx := [Rx_error EINTR, Rx_data (drop 3 frame_Z @ frame_X @ [3, 0])],
     trace := [Call Dom0_input_event frame_Y]\<rparr>"

definition yzx_recv :: service where
  "yzx_recv = yzx\<lparr>buff := [3,0,0,0,10,0,0,0,104,105,3,0,10,0,0,0,104,105,3,0,0,0,0,0],
     len := 2, rx := [],
     trace := [Call Dom0_input_event frame_Y, Fprintf (Unrecognized_message_ID 99)]\<rparr>"

section \<open>Facts about the instance\<close>


lemma proto8_sizes_ok: "sizes_ok proto8"
  by (simp add: sizes_ok_def proto8_def)

lemma proto8_hdr_local: "hdr_local proto8"
proof -
  have "le32 (take 4 (take 8 a)) = le32 (take 4 (take 8 b)) \<and>
        le32 (drop 4 (take 8 a)) = le32 (drop 4 (take 8 b))"
    if "take 8 a = take 8 b" for a b :: "byte list"
    using that by (rule subst) simp
  then show ?thesis
    unfolding hdr_local_def proto8_def by (simp del: take_take)
qed

lemma proto8_tags_ok: "tags_ok proto8"
  by (simp add: tags_ok_def known_tags_def proto8_def)


lemma proto8_sel:
  "hdr_size proto8 = 8" "max_msg_len proto8 = 24"
  "msg_type proto8 b = le32 (take 4 (take 8 b))"
  "msg_len proto8 b = le32 (drop 4 (take 8 b))"
  "set_hdr proto8 t l d = le32_bytes t @ le32_bytes l @ drop 8 d"
  "DMBUS_MSG_DOM0_INPUT_EVENT proto8 = 1" "DMBUS_MSG_DISPLAY_INFO proto8 = 2"
  "DMBUS_MSG_DISPLAY_EDID proto8 = 3" "DMBUS_MSG_DEVICE_MODEL_READY proto8 = 4"
  "DMBUS_MSG_INPUT_CONFIG proto8 = 5" "DMBUS_MSG_INPUT_CONFIG_RESET proto8 = 6"
  by (simp_all add: proto8_def)

section \<open>The C comparisons and the pop on values in range\<close>

lemma sint_small:
  fixes w :: "32 word"
  assumes "uint w < 2 ^ 31"
  shows "sint w = uint w"
proof -
  have "- (2 ^ 31) \<le> (0::int)" by simp
  also have "0 \<le> uint w" by simp
  finally have "- (2 ^ 31) \<le> uint w" .
  with assms have "signed_take_bit 31 (uint w) = uint w"
    by (intro signed_take_bit_int_eq_self) simp_all
  then show ?thesis by (simp add: sint_uint)
qed

lemma lt_u32_uint: "0 \<le> i \<Longrightarrow> i < 2 ^ 31 \<Longrightarrow> lt_u32 i w \<longleftrightarrow> i < uint w"
  by (simp add: lt_u32_def word_less_def uint_word_of_int take_bit_eq_mod)

lemma lt_size_t_int: "0 \<le> i \<Longrightarrow> i < 2 ^ 31 \<Longrightarrow> lt_size_t i n \<longleftrightarrow> i < int n"
  by (auto simp: lt_size_t_def)

lemma complete_iff:
  assumes "sizes_ok p" "buf_inv p s"
  shows "complete p s \<longleftrightarrow> int (hdr_size p) \<le> len s \<and> uint (msg_len p (buff s)) \<le> len s"
  using assms by (auto simp: complete_def sizes_ok_def buf_inv_def lt_u32_uint lt_size_t_int)

lemma pop_message_complete:
  assumes "sizes_ok p" "buf_inv p s" "complete p s"
  shows "pop_message p s =
           Some (s\<lparr>buff := drop (unat (msg_len p (buff s))) (take (nat (len s)) (buff s))
                            @ drop (nat (len s) - unat (msg_len p (buff s))) (buff s),
                    len := len s - uint (msg_len p (buff s))\<rparr>)"
proof -
  let ?L = "msg_len p (buff s)"
  from assms have c: "int (hdr_size p) \<le> len s" "uint ?L \<le> len s"
    by (simp_all add: complete_iff)
  from assms have b: "0 \<le> len s" "len s < 2 ^ 31" "len s \<le> int (length (buff s))"
    by (simp_all add: sizes_ok_def buf_inv_def)
  from c b have sL: "sint ?L = uint ?L"
    by (intro sint_small) linarith
  have n: "nat (uint ?L) = unat ?L" by simp
  have "take (nat (len s - uint ?L)) (drop (nat (uint ?L)) (buff s))
          = drop (unat ?L) (take (nat (len s)) (buff s))"
    using c b by (simp add: drop_take nat_diff_distrib)
  moreover have "nat (len s - uint ?L) = nat (len s) - unat ?L"
    using c b by (simp add: nat_diff_distrib)
  ultimately show ?thesis
    using c b by (simp add: pop_message_def Let_def sL lt_size_t_int memmove_def)
qed

lemma handle_disconnect_pending: "qemu_timer_pending s \<Longrightarrow> handle_disconnect s = s"
  by (simp add: handle_disconnect_def)

lemma msg_len_st12: "msg_len proto8 (buff st12) = 9"
  by (simp add: st12_def idle_def proto8_sel le32_def)

section \<open>Reconnection\<close>

text \<open>
  After \<open>handle_disconnect\<close> the timer is armed, whatever the state was, so that a second
  call changes nothing.
\<close>

lemma handle_disconnect_arms: "qemu_timer_pending (handle_disconnect s)"
  by (simp add: handle_disconnect_def qemu_timer_pending_def qemu_mod_timer_def emit_def)

lemma handle_disconnect_idem: "handle_disconnect (handle_disconnect s) = handle_disconnect s"
  by (rule handle_disconnect_pending) (rule handle_disconnect_arms)

text \<open>
  C1: while the reconnection timer is armed, a disconnect signal does nothing. Any number
  of calls of \<open>handle_disconnect\<close> leaves the state as it is, so no second teardown and no
  second \<^verbatim>\<open>qemu_mod_timer\<close> happens; and at each of the three places that raise the
  signal (a read of zero bytes in \<open>sync_recv\<close>, a read of zero bytes in
  \<open>dmbus_fd_handler\<close>, \<^verbatim>\<open>ECONNRESET\<close> in the loop of \<open>dmbus_send\<close>) the function returns with
  the state the transport call left, the trace and the timer untouched.
\<close>

theorem disconnect_while_armed:
  assumes "qemu_timer_pending s"
  shows "(handle_disconnect ^^ n) s = s \<and>
         (\<forall>s1. incomplete p s \<and> recv_buff p False s = Some (Rc_bytes [], s1) \<longrightarrow>
            sync_recv p s = Some (False, s1) \<and> trace s1 = trace s \<and>
            reconnect_timer s1 = reconnect_timer s) \<and>
         (\<forall>s1. recv_buff p True s = Some (Rc_bytes [], s1) \<longrightarrow>
            dmbus_fd_handler p s = Some s1 \<and> trace s1 = trace s \<and>
            reconnect_timer s1 = reconnect_timer s) \<and>
         (\<forall>ts. b < k \<and> v4v_send (k - b) (tx s) = (Send_error ECONNRESET, ts) \<longrightarrow>
            dmbus_send_loop d k b s = (- 1, s\<lparr>tx := ts\<rparr>))"
proof (intro conjI allI impI)
  show "(handle_disconnect ^^ n) s = s"
    by (induction n) (simp_all add: handle_disconnect_pending assms)
next
  fix s1 assume a: "incomplete p s \<and> recv_buff p False s = Some (Rc_bytes [], s1)"
  then have e: "trace s1 = trace s" "reconnect_timer s1 = reconnect_timer s"
    by (auto simp: recv_buff_def split: if_splits prod.splits recv_rc.splits)
  with assms have "handle_disconnect s1 = s1"
    by (simp add: handle_disconnect_pending qemu_timer_pending_def)
  with a e show "sync_recv p s = Some (False, s1)"
    "trace s1 = trace s" "reconnect_timer s1 = reconnect_timer s"
    by (simp_all add: sync_recv.simps)
next
  fix s1 assume a: "recv_buff p True s = Some (Rc_bytes [], s1)"
  then have e: "trace s1 = trace s" "reconnect_timer s1 = reconnect_timer s"
    by (auto simp: recv_buff_def split: if_splits prod.splits recv_rc.splits)
  with assms have "handle_disconnect s1 = s1"
    by (simp add: handle_disconnect_pending qemu_timer_pending_def)
  with a e show "dmbus_fd_handler p s = Some s1"
    "trace s1 = trace s" "reconnect_timer s1 = reconnect_timer s"
    by (simp_all add: dmbus_fd_handler_def dmbus_fd_handler_read.simps)
next
  fix ts assume a: "b < k \<and> v4v_send (k - b) (tx s) = (Send_error ECONNRESET, ts)"
  from assms have "handle_disconnect (s\<lparr>tx := ts\<rparr>) = s\<lparr>tx := ts\<rparr>"
    by (simp add: handle_disconnect_pending qemu_timer_pending_def)
  with a show "dmbus_send_loop d k b s = (- 1, s\<lparr>tx := ts\<rparr>)"
    by (simp add: dmbus_send_loop.simps)
qed

theorem disconnect_while_armed_witness:
  "qemu_timer_pending armed \<and> (handle_disconnect ^^ 3) armed = armed \<and>
   sync_recv proto8 armed = Some (False, armed\<lparr>rx := []\<rparr>) \<and>
   dmbus_fd_handler proto8 armed = Some (armed\<lparr>rx := []\<rparr>) \<and>
   dmbus_send_loop hello 10 0 armed = (- 1, armed\<lparr>tx := []\<rparr>)"
proof -
  have h: "qemu_timer_pending armed"
    by (simp add: qemu_timer_pending_def armed_def)
  have i: "incomplete proto8 armed"
    by (simp add: incomplete_def lt_size_t_def armed_def idle_def proto8_sel)
  have r: "recv_buff proto8 d armed = Some (Rc_bytes [], armed\<lparr>rx := []\<rparr>)" for d
    by (simp add: recv_buff_def armed_def idle_def proto8_sel)
  have t: "v4v_send (10 - 0) (tx armed) = (Send_error ECONNRESET, [])"
    by (simp add: armed_def)
  from disconnect_while_armed [OF h, of 3 proto8 0 10 hello] i r t h show ?thesis
    by simp
qed

text \<open>
  C7: \<open>dmbus_service_disconnect\<close>, in every state, unregisters the descriptor's handler,
  frees the timer, closes the transport and frees the service, in this order; with
  \<open>qemu_free_timer\<close> as modelled, no timer is armed afterwards.
\<close>

theorem dmbus_service_disconnect_calls:
  "dmbus_service_disconnect s =
     s\<lparr>reconnect_timer := None,
       trace := trace s @ [Set_fd_handler (fd s) False, Free_timer, V4v_close (fd s),
                           Free_service]\<rparr>"
  by (simp add: dmbus_service_disconnect_def free_def v4v_close_def qemu_free_timer_def
      qemu_set_fd_handler_def emit_def)

section \<open>Popping a frame\<close>

text \<open>
  C2: with \<open>len s\<close> valid bytes in the buffer, at least a header, and a frame at the front
  whose declared length is at most \<open>len s\<close>, \<open>pop_message\<close> leaves
  \<open>len s - msg_len\<close> valid bytes, and they are the bytes that stood at the positions from
  \<open>msg_len\<close> up to \<open>len s\<close>.
\<close>

theorem pop_message_frame:
  assumes "sizes_ok p" and "buf_inv p s"
    and "int (hdr_size p) \<le> len s" and "uint (msg_len p (buff s)) \<le> len s"
  shows "\<exists>s'. pop_message p s = Some s' \<and>
           len s' = len s - uint (msg_len p (buff s)) \<and>
           take (nat (len s')) (buff s') =
             drop (unat (msg_len p (buff s))) (take (nat (len s)) (buff s)) \<and>
           length (buff s') = length (buff s)"
proof -
  let ?L = "msg_len p (buff s)"
  from assms have c: "complete p s"
    by (simp add: complete_iff)
  from assms have b: "0 \<le> len s" "len s \<le> int (length (buff s))"
    by (simp_all add: buf_inv_def)
  have n: "nat (len s - uint ?L) = nat (len s) - unat ?L"
    using assms(4) b by (simp add: nat_diff_distrib)
  have l: "length (drop (unat ?L) (take (nat (len s)) (buff s))) = nat (len s) - unat ?L"
    using b by simp
  show ?thesis
    unfolding pop_message_complete [OF assms(1,2) c]
    using b by (simp add: n l)
qed

theorem pop_message_frame_witness:
  "sizes_ok proto8 \<and> buf_inv proto8 st12 \<and> int (hdr_size proto8) \<le> len st12 \<and>
   uint (msg_len proto8 (buff st12)) \<le> len st12 \<and>
   (\<exists>s'. pop_message proto8 st12 = Some s' \<and> len s' = 3 \<and> take 3 (buff s') = [2, 0, 0])"
proof -
  have h: "sizes_ok proto8" "buf_inv proto8 st12" "int (hdr_size proto8) \<le> len st12"
    "uint (msg_len proto8 (buff st12)) \<le> len st12"
    unfolding msg_len_st12 by (simp_all add: proto8_sizes_ok buf_inv_def st12_def idle_def proto8_sel)
  from pop_message_frame [OF h] obtain s' where s':
    "pop_message proto8 st12 = Some s'" "len s' = len st12 - uint (msg_len proto8 (buff st12))"
    "take (nat (len s')) (buff s') =
       drop (unat (msg_len proto8 (buff st12))) (take (nat (len st12)) (buff st12))"
    by blast
  from s'(2) have l: "len s' = 3"
    by (simp add: msg_len_st12) (simp add: st12_def idle_def)
  from s'(3) have "take 3 (buff s') = [2, 0, 0]"
    unfolding l msg_len_st12 by (simp add: st12_def idle_def)
  with h s'(1) l show ?thesis by blast
qed

section \<open>Dispatch\<close>

lemma no_table_type: "msg_type proto8 (buff no_table) = 99"
  by (simp add: no_table_def idle_def proto8_sel le32_def)

lemma no_table_len: "msg_len proto8 (buff no_table) = 8"
  by (simp add: no_table_def idle_def proto8_sel le32_def)

lemma c: "complete proto8 no_table"
  unfolding complete_def no_table_len
  by (simp add: no_table_def idle_def proto8_sel(1,2) lt_size_t_def lt_u32_def)

lemma msg_type_tagged: "msg_type proto8 (buff (tagged t h)) = ucast t"
  by (simp add: tagged_def idle_def proto8_sel le32_def)

lemma handle_message_no_ops: "ops s = None \<Longrightarrow> handle_message p s = s"
  by (simp add: handle_message_def)

lemma handle_message_tag:
  assumes "tags_ok p" "ops s = Some h"
  shows "msg_type p (buff s) = DMBUS_MSG_DOM0_INPUT_EVENT p \<Longrightarrow> \<not> dom0_input_event h \<Longrightarrow>
         handle_message p s = s"
    "msg_type p (buff s) = DMBUS_MSG_DISPLAY_INFO p \<Longrightarrow> \<not> display_info h \<Longrightarrow>
         handle_message p s = s"
    "msg_type p (buff s) = DMBUS_MSG_DISPLAY_EDID p \<Longrightarrow> \<not> display_edid h \<Longrightarrow>
         handle_message p s = s"
    "msg_type p (buff s) = DMBUS_MSG_INPUT_CONFIG p \<Longrightarrow> \<not> input_config h \<Longrightarrow>
         handle_message p s = s"
    "msg_type p (buff s) = DMBUS_MSG_INPUT_CONFIG_RESET p \<Longrightarrow> \<not> input_config_reset h \<Longrightarrow>
         handle_message p s = s"
    "msg_type p (buff s) = DMBUS_MSG_DEVICE_MODEL_READY p \<Longrightarrow> handle_message p s = s"
    "msg_type p (buff s) \<notin> set (known_tags p) \<Longrightarrow>
       handle_message p s = fprintf_stderr (Unrecognized_message_ID (msg_type p (buff s))) s"
proof -
  from assms(1) have d:
    "DMBUS_MSG_DOM0_INPUT_EVENT p \<noteq> DMBUS_MSG_DISPLAY_INFO p"
    "DMBUS_MSG_DOM0_INPUT_EVENT p \<noteq> DMBUS_MSG_DISPLAY_EDID p"
    "DMBUS_MSG_DOM0_INPUT_EVENT p \<noteq> DMBUS_MSG_DEVICE_MODEL_READY p"
    "DMBUS_MSG_DOM0_INPUT_EVENT p \<noteq> DMBUS_MSG_INPUT_CONFIG p"
    "DMBUS_MSG_DOM0_INPUT_EVENT p \<noteq> DMBUS_MSG_INPUT_CONFIG_RESET p"
    "DMBUS_MSG_DISPLAY_INFO p \<noteq> DMBUS_MSG_DISPLAY_EDID p"
    "DMBUS_MSG_DISPLAY_INFO p \<noteq> DMBUS_MSG_DEVICE_MODEL_READY p"
    "DMBUS_MSG_DISPLAY_INFO p \<noteq> DMBUS_MSG_INPUT_CONFIG p"
    "DMBUS_MSG_DISPLAY_INFO p \<noteq> DMBUS_MSG_INPUT_CONFIG_RESET p"
    "DMBUS_MSG_DISPLAY_EDID p \<noteq> DMBUS_MSG_DEVICE_MODEL_READY p"
    "DMBUS_MSG_DISPLAY_EDID p \<noteq> DMBUS_MSG_INPUT_CONFIG p"
    "DMBUS_MSG_DISPLAY_EDID p \<noteq> DMBUS_MSG_INPUT_CONFIG_RESET p"
    "DMBUS_MSG_DEVICE_MODEL_READY p \<noteq> DMBUS_MSG_INPUT_CONFIG p"
    "DMBUS_MSG_DEVICE_MODEL_READY p \<noteq> DMBUS_MSG_INPUT_CONFIG_RESET p"
    "DMBUS_MSG_INPUT_CONFIG p \<noteq> DMBUS_MSG_INPUT_CONFIG_RESET p"
    by (simp_all add: tags_ok_def known_tags_def)
  note h = handle_message_def Let_def assms(2) d d [symmetric]
  show "msg_type p (buff s) = DMBUS_MSG_DOM0_INPUT_EVENT p \<Longrightarrow> \<not> dom0_input_event h \<Longrightarrow>
         handle_message p s = s"
    by (simp add: h)
  show "msg_type p (buff s) = DMBUS_MSG_DISPLAY_INFO p \<Longrightarrow> \<not> display_info h \<Longrightarrow>
         handle_message p s = s"
    by (simp add: h)
  show "msg_type p (buff s) = DMBUS_MSG_DISPLAY_EDID p \<Longrightarrow> \<not> display_edid h \<Longrightarrow>
         handle_message p s = s"
    by (simp add: h)
  show "msg_type p (buff s) = DMBUS_MSG_INPUT_CONFIG p \<Longrightarrow> \<not> input_config h \<Longrightarrow>
         handle_message p s = s"
    by (simp add: h)
  show "msg_type p (buff s) = DMBUS_MSG_INPUT_CONFIG_RESET p \<Longrightarrow> \<not> input_config_reset h \<Longrightarrow>
         handle_message p s = s"
    by (simp add: h)
  show "msg_type p (buff s) = DMBUS_MSG_DEVICE_MODEL_READY p \<Longrightarrow> handle_message p s = s"
    by (simp add: h)
  show "msg_type p (buff s) \<notin> set (known_tags p) \<Longrightarrow>
       handle_message p s = fprintf_stderr (Unrecognized_message_ID (msg_type p (buff s))) s"
    by (simp add: handle_message_def Let_def assms(2) known_tags_def)
qed

text \<open>
  C9, as the claim states it, fails where no capability table is registered: with
  \<^verbatim>\<open>s->ops == NULL\<close> the function returns before the \<^verbatim>\<open>switch\<close>, and a frame with an
  unrecognized tag is dropped without a line on stderr.
\<close>

theorem unrecognized_not_logged_counterexample:
  "msg_type proto8 (buff no_table) \<notin> set (known_tags proto8) \<and>
   complete proto8 no_table \<and>
   trace (handle_message proto8 no_table) = trace no_table"
  unfolding no_table_type
  by (simp add: c known_tags_def proto8_sel(6-11) handle_message_def) (simp add: no_table_def)

text \<open>
  C9, amended: without a capability table every frame is ignored in silence. With one,
  a recognized tag whose slot is unset and the device-model-ready tag leave the state as
  it is, and an unrecognized tag writes one line to stderr and nothing else: the
  function returns, the buffer, the descriptor and the timer are untouched.
\<close>

theorem handle_message_cases:
  assumes "tags_ok p"
  shows "(ops s = None \<longrightarrow> handle_message p s = s) \<and>
    (\<forall>h. ops s = Some h \<longrightarrow>
      (msg_type p (buff s) = DMBUS_MSG_DOM0_INPUT_EVENT p \<and> \<not> dom0_input_event h \<longrightarrow>
         handle_message p s = s) \<and>
      (msg_type p (buff s) = DMBUS_MSG_DISPLAY_INFO p \<and> \<not> display_info h \<longrightarrow>
         handle_message p s = s) \<and>
      (msg_type p (buff s) = DMBUS_MSG_DISPLAY_EDID p \<and> \<not> display_edid h \<longrightarrow>
         handle_message p s = s) \<and>
      (msg_type p (buff s) = DMBUS_MSG_INPUT_CONFIG p \<and> \<not> input_config h \<longrightarrow>
         handle_message p s = s) \<and>
      (msg_type p (buff s) = DMBUS_MSG_INPUT_CONFIG_RESET p \<and> \<not> input_config_reset h \<longrightarrow>
         handle_message p s = s) \<and>
      (msg_type p (buff s) = DMBUS_MSG_DEVICE_MODEL_READY p \<longrightarrow> handle_message p s = s) \<and>
      (msg_type p (buff s) \<notin> set (known_tags p) \<longrightarrow>
         handle_message p s = fprintf_stderr (Unrecognized_message_ID (msg_type p (buff s))) s))"
  using handle_message_no_ops [of s p] handle_message_tag [OF assms, of s]
  by blast

theorem handle_message_cases_witness:
  "tags_ok proto8 \<and>
   handle_message proto8 no_table = no_table \<and>
   handle_message proto8 (tagged 1 no_ops) = tagged 1 no_ops \<and>
   handle_message proto8 (tagged 2 no_ops) = tagged 2 no_ops \<and>
   handle_message proto8 (tagged 3 no_ops) = tagged 3 no_ops \<and>
   handle_message proto8 (tagged 5 no_ops) = tagged 5 no_ops \<and>
   handle_message proto8 (tagged 6 no_ops) = tagged 6 no_ops \<and>
   handle_message proto8 (tagged 4 all_ops) = tagged 4 all_ops \<and>
   handle_message proto8 (tagged 99 all_ops) =
     fprintf_stderr (Unrecognized_message_ID 99) (tagged 99 all_ops)"
proof -
  note t = proto8_tags_ok
  have o: "ops no_table = None" "ops (tagged x h) = Some h" for x h
    by (simp_all add: no_table_def tagged_def)
  have f: "\<not> dom0_input_event no_ops" "\<not> display_info no_ops" "\<not> display_edid no_ops"
    "\<not> input_config no_ops" "\<not> input_config_reset no_ops"
    by (simp_all add: no_ops_def)
  have u: "(99 :: 32 word) \<notin> set (known_tags proto8)"
    by (simp add: known_tags_def proto8_sel(6-11))
  note e = o f u msg_type_tagged proto8_sel(6-11)
  have "handle_message proto8 no_table = no_table"
    using handle_message_cases [OF t, of no_table] by (simp add: e)
  moreover have "handle_message proto8 (tagged 1 no_ops) = tagged 1 no_ops"
    using handle_message_cases [OF t, of "tagged 1 no_ops"] by (simp add: e)
  moreover have "handle_message proto8 (tagged 2 no_ops) = tagged 2 no_ops"
    using handle_message_cases [OF t, of "tagged 2 no_ops"] by (simp add: e)
  moreover have "handle_message proto8 (tagged 3 no_ops) = tagged 3 no_ops"
    using handle_message_cases [OF t, of "tagged 3 no_ops"] by (simp add: e)
  moreover have "handle_message proto8 (tagged 5 no_ops) = tagged 5 no_ops"
    using handle_message_cases [OF t, of "tagged 5 no_ops"] by (simp add: e)
  moreover have "handle_message proto8 (tagged 6 no_ops) = tagged 6 no_ops"
    using handle_message_cases [OF t, of "tagged 6 no_ops"] by (simp add: e)
  moreover have "handle_message proto8 (tagged 4 all_ops) = tagged 4 all_ops"
    using handle_message_cases [OF t, of "tagged 4 all_ops"] by (simp add: e)
  moreover have "handle_message proto8 (tagged 99 all_ops) =
     fprintf_stderr (Unrecognized_message_ID 99) (tagged 99 all_ops)"
    using handle_message_cases [OF t, of "tagged 99 all_ops"] by (simp add: e)
  ultimately show ?thesis using t by simp
qed

section \<open>Reads of zero bytes and read errors\<close>

lemma recv_buff_keeps:
  "recv_buff p d s = Some (rc, s1) \<Longrightarrow>
     trace s1 = trace s \<and> reconnect_timer s1 = reconnect_timer s \<and> len s1 = len s \<and>
     fd s1 = fd s \<and> ops s1 = ops s \<and> now s1 = now s \<and> tx s1 = tx s \<and> wire s1 = wire s"
  by (auto simp: recv_buff_def split: if_splits prod.splits recv_rc.splits)

lemma incomplete_rx_only: "incomplete proto8 (rx_only es)"
  by (simp add: incomplete_def lt_size_t_def rx_only_def idle_def proto8_sel(1,2))

lemma recv_buff_rx_only:
  "recv_buff proto8 d (rx_only (Rx_data [] # es)) = Some (Rc_bytes [], rx_only es)"
  "recv_buff proto8 d (rx_only (Rx_error e # es)) = Some (Rc_error e, rx_only es)"
  by (simp_all add: recv_buff_def rx_only_def idle_def proto8_sel(1,2))

text \<open>
  C3, as the claim states it, fails on read errors: an error other than \<^verbatim>\<open>EINTR\<close> is
  written to stderr and the function returns; \<open>handle_disconnect\<close> is not called, so the
  descriptor stays registered and open and no timer is armed. The last equation shows
  what \<open>handle_disconnect\<close> would have done in that state.
\<close>

theorem read_error_no_disconnect_counterexample:
  "sync_recv proto8 (rx_only [Rx_error (EOTHER 5)]) =
     Some (False, (rx_only [])\<lparr>trace := [Fprintf (Recv_error (EOTHER 5))]\<rparr>) \<and>
   dmbus_fd_handler proto8 (rx_only [Rx_error (EOTHER 5)]) =
     Some ((rx_only [])\<lparr>trace := [Fprintf (Recv_error (EOTHER 5))]\<rparr>) \<and>
   handle_disconnect (rx_only []) =
     (rx_only [])\<lparr>reconnect_timer := Some 1000,
        trace := [Set_fd_handler 3 False, V4v_close 3, Fprintf Remote_service_disconnected,
                  Mod_timer 1000]\<rparr>"
  by (simp add: incomplete_rx_only recv_buff_rx_only dmbus_fd_handler_def fprintf_stderr_def
       emit_def sync_recv.simps dmbus_fd_handler_read.simps)
     (simp add: rx_only_def idle_def handle_disconnect_def qemu_timer_pending_def
       qemu_mod_timer_def fprintf_stderr_def v4v_close_def qemu_set_fd_handler_def emit_def)

text \<open>
  C3, amended: at every read of \<open>sync_recv\<close> and of \<open>dmbus_fd_handler\<close> (in its own loop
  and in the \<open>sync_recv\<close> it calls), a read of zero bytes calls \<open>handle_disconnect\<close> and
  ends the function; a read error other than \<^verbatim>\<open>EINTR\<close> is written to stderr and ends the
  function with the timer as it was and that one line added to the trace.
\<close>

theorem read_zero_or_error:
  "(\<forall>s1. incomplete p s \<and> recv_buff p False s = Some (Rc_bytes [], s1) \<longrightarrow>
      sync_recv p s = Some (False, handle_disconnect s1)) \<and>
   (\<forall>s1. recv_buff p True s = Some (Rc_bytes [], s1) \<longrightarrow>
      dmbus_fd_handler p s = Some (handle_disconnect s1)) \<and>
   (\<forall>s1 s2. dmbus_fd_handler_read p s = Some (True, s1) \<and> sync_recv p s1 = Some (False, s2) \<longrightarrow>
      dmbus_fd_handler p s = Some s2) \<and>
   (\<forall>e s1. e \<noteq> EINTR \<and> incomplete p s \<and> recv_buff p False s = Some (Rc_error e, s1) \<longrightarrow>
      sync_recv p s = Some (False, fprintf_stderr (Recv_error e) s1) \<and>
      reconnect_timer (fprintf_stderr (Recv_error e) s1) = reconnect_timer s \<and>
      trace (fprintf_stderr (Recv_error e) s1) = trace s @ [Fprintf (Recv_error e)]) \<and>
   (\<forall>e s1. e \<noteq> EINTR \<and> recv_buff p True s = Some (Rc_error e, s1) \<longrightarrow>
      dmbus_fd_handler p s = Some (fprintf_stderr (Recv_error e) s1) \<and>
      reconnect_timer (fprintf_stderr (Recv_error e) s1) = reconnect_timer s \<and>
      trace (fprintf_stderr (Recv_error e) s1) = trace s @ [Fprintf (Recv_error e)])"
  by (auto simp: dmbus_fd_handler_def fprintf_stderr_def emit_def sync_recv.simps
      dmbus_fd_handler_read.simps dest: recv_buff_keeps)

theorem read_zero_or_error_witness:
  "sync_recv proto8 (rx_only [Rx_data []]) = Some (False, handle_disconnect (rx_only [])) \<and>
   dmbus_fd_handler proto8 (rx_only [Rx_data []]) = Some (handle_disconnect (rx_only [])) \<and>
   dmbus_fd_handler proto8 (rx_only [Rx_data [1], Rx_data []]) =
     Some (handle_disconnect ((rx_only [])\<lparr>buff := 1 # replicate 23 0, len := 1\<rparr>)) \<and>
   sync_recv proto8 (rx_only [Rx_error EAGAIN]) =
     Some (False, fprintf_stderr (Recv_error EAGAIN) (rx_only [])) \<and>
   dmbus_fd_handler proto8 (rx_only [Rx_error EAGAIN]) =
     Some (fprintf_stderr (Recv_error EAGAIN) (rx_only []))"
proof -
  let ?s1 = "(rx_only [Rx_data []])\<lparr>buff := 1 # replicate 23 0, len := 1\<rparr>"
  have a: "dmbus_fd_handler_read proto8 (rx_only [Rx_data [1], Rx_data []]) = Some (True, ?s1)"
    by (simp add: dmbus_fd_handler_read.simps recv_buff_def rx_only_def idle_def proto8_sel(1,2))
  have i: "incomplete proto8 ?s1"
    by (simp add: incomplete_def lt_size_t_def rx_only_def idle_def proto8_sel(1,2))
  have r: "recv_buff proto8 False ?s1 =
     Some (Rc_bytes [], (rx_only [])\<lparr>buff := 1 # replicate 23 0, len := 1\<rparr>)"
    by (simp add: recv_buff_def rx_only_def idle_def proto8_sel(1,2))
  have b: "sync_recv proto8 ?s1 =
     Some (False, handle_disconnect ((rx_only [])\<lparr>buff := 1 # replicate 23 0, len := 1\<rparr>))"
    using i r by (simp add: sync_recv.simps)
  show ?thesis
    using read_zero_or_error [of proto8 "rx_only [Rx_data []]"]
      read_zero_or_error [of proto8 "rx_only [Rx_data [1], Rx_data []]"]
      read_zero_or_error [of proto8 "rx_only [Rx_error EAGAIN]"]
    by (simp add: incomplete_rx_only recv_buff_rx_only a b)
qed

section \<open>Transient transport errors\<close>







section \<open>The send path\<close>






section \<open>A run with three frames\<close>

lemma replicate_numeral_Cons: "replicate (numeral k) x = x # replicate (pred_numeral k) x"
  by (simp add: numeral_eq_Suc)

lemmas run_defs = replicate_numeral_Cons yzx_def idle_def frame_Y_def frame_Z_def frame_X_def all_ops_def
  proto8_sel le32_def
  incomplete_def complete_def lt_size_t_def lt_u32_def recv_buff_def
  handle_message_def pop_message_def memmove_def Let_def
  handle_disconnect_def qemu_timer_pending_def emit_def fprintf_stderr_def
  sync_recv.simps dmbus_sync_recv_loop.simps dmbus_fd_handler_dispatch.simps
  dmbus_fd_handler_read.simps dmbus_fd_handler_def dmbus_sync_recv_def

lemma sync_yzx:
  "sync_recv proto8 yzx =
     Some (True, yzx\<lparr>rx := [Rx_error EINTR, Rx_data (drop 3 frame_Z @ frame_X @ [3, 0])],
                    buff := frame_Y @ take 3 frame_Z @ replicate 12 0, len := 12\<rparr>)"
  by (simp add: run_defs)

lemma fd_yzx: "dmbus_fd_handler proto8 yzx = Some yzx_fd"
  by (simp add: run_defs yzx_fd_def)

lemma recv_yzx: "dmbus_sync_recv proto8 yzx 2 100 = Some (10, frame_X, yzx_recv)"
  by (simp add: run_defs yzx_recv_def)

lemma buf_inv_yzx: "buf_inv proto8 yzx"
  by (simp add: buf_inv_def yzx_def idle_def proto8_sel(1,2))

section \<open>The buffer invariant\<close>

lemma v4v_recv_bytes_le: "v4v_recv d n es = (Rc_bytes bs, es') \<Longrightarrow> length bs \<le> n"
  by (cases "(d, n, es)" rule: v4v_recv.cases) (auto split: if_splits)

lemma recv_buff_total: "buf_inv p s \<Longrightarrow> \<exists>rc s1. recv_buff p d s = Some (rc, s1)"
  by (auto simp: recv_buff_def buf_inv_def split: prod.splits recv_rc.splits)

lemma recv_buff_inv: "recv_buff p d s = Some (rc, s1) \<Longrightarrow> buf_inv p s1"
  by (auto simp: recv_buff_def buf_inv_def split: if_splits prod.splits recv_rc.splits
      dest!: v4v_recv_bytes_le)

lemma recv_buff_append_inv:
  "recv_buff p d s = Some (Rc_bytes bs, s1) \<Longrightarrow> buf_inv p (s1\<lparr>len := len s1 + int (length bs)\<rparr>)"
  by (auto simp: recv_buff_def buf_inv_def split: if_splits prod.splits recv_rc.splits
      dest!: v4v_recv_bytes_le)

lemma buf_inv_emit [simp]: "buf_inv p (emit e s) = buf_inv p s"
  by (simp add: buf_inv_def emit_def)

lemma buf_inv_fprintf [simp]: "buf_inv p (fprintf_stderr m s) = buf_inv p s"
  by (simp add: fprintf_stderr_def)

lemma buf_inv_handle_disconnect [simp]: "buf_inv p (handle_disconnect s) = buf_inv p s"
  by (simp add: handle_disconnect_def qemu_mod_timer_def v4v_close_def qemu_set_fd_handler_def
      fprintf_stderr_def buf_inv_def emit_def)

lemma buf_inv_handle_message [simp]: "buf_inv p (handle_message q s) = buf_inv p s"
  by (simp add: handle_message_def Let_def split: option.splits)

lemma pop_message_inv: "pop_message p s = Some s' \<Longrightarrow> buf_inv p s \<Longrightarrow> buf_inv p s'"
  by (auto simp: pop_message_def Let_def memmove_def buf_inv_def split: if_splits)

lemma sync_recv_inv: "buf_inv p s \<Longrightarrow> \<exists>m s'. sync_recv p s = Some (m, s') \<and> buf_inv p s'"
proof (induction p s rule: sync_recv.induct)
  case (1 p s)
  show ?case
  proof (cases "incomplete p s")
    case False
    then have "sync_recv p s = Some (True, s)"
      by (simp add: sync_recv.simps [of p s])
    with "1.prems" show ?thesis by blast
  next
    case True
    from recv_buff_total [OF "1.prems"] obtain rc s1 where r: "recv_buff p False s = Some (rc, s1)"
      by blast
    note i = recv_buff_inv [OF r]
    show ?thesis
    proof (cases rc)
      case (Rc_bytes bs)
      show ?thesis
      proof (cases "bs = []")
        case True
        with \<open>incomplete p s\<close> r Rc_bytes i show ?thesis
          by (auto simp: sync_recv.simps [of p s])
      next
        case False
        from r Rc_bytes have "buf_inv p (s1\<lparr>len := len s1 + int (length bs)\<rparr>)"
          by (simp add: recv_buff_append_inv)
        from "1.IH"(1) [OF True r [unfolded Rc_bytes] refl refl False this]
        show ?thesis
          using True r Rc_bytes False by (simp add: sync_recv.simps [of p s])
      qed
    next
      case (Rc_error e)
      show ?thesis
      proof (cases "e = EINTR")
        case True
        from "1.IH"(2) [OF \<open>incomplete p s\<close> r [unfolded Rc_error] refl refl True i]
        show ?thesis
          using \<open>incomplete p s\<close> r Rc_error True by (simp add: sync_recv.simps [of p s])
      next
        case False
        with \<open>incomplete p s\<close> r Rc_error i show ?thesis
          by (auto simp: sync_recv.simps [of p s])
      qed
    qed
  qed
qed

lemma dmbus_fd_handler_read_inv:
  "buf_inv p s \<Longrightarrow> \<exists>m s'. dmbus_fd_handler_read p s = Some (m, s') \<and> buf_inv p s'"
proof (induction p s rule: dmbus_fd_handler_read.induct)
  case (1 p s)
  from recv_buff_total [OF "1.prems"] obtain rc s1 where r: "recv_buff p True s = Some (rc, s1)"
    by blast
  note i = recv_buff_inv [OF r]
  show ?case
  proof (cases rc)
    case (Rc_bytes bs)
    with r i recv_buff_append_inv [of p True s bs s1] show ?thesis
      by (auto simp: dmbus_fd_handler_read.simps [of p s])
  next
    case (Rc_error e)
    show ?thesis
    proof (cases "e = EINTR")
      case True
      from "1.IH" [OF r [unfolded Rc_error] refl refl True i]
      show ?thesis
        using r Rc_error True by (simp add: dmbus_fd_handler_read.simps [of p s])
    next
      case False
      with r Rc_error i show ?thesis
        by (auto simp: dmbus_fd_handler_read.simps [of p s])
    qed
  qed
qed

lemma dmbus_fd_handler_dispatch_inv:
  "dmbus_fd_handler_dispatch p s = Some s' \<Longrightarrow> buf_inv p s \<Longrightarrow> buf_inv p s'"
proof (induction rule: dmbus_fd_handler_dispatch.raw_induct [rotated, consumes 1])
  case (1 f p s s')
  show ?case
  proof (cases "complete p s")
    case False
    with 1 show ?thesis by simp
  next
    case True
    with "1.hyps" obtain s1 where s1: "pop_message p (handle_message p s) = Some s1"
      "f p s1 = Some s'"
      by (auto split: option.splits)
    from pop_message_inv [OF s1(1)] "1.prems" have "buf_inv p s1" by simp
    with "1.IH" s1(2) show ?thesis by blast
  qed
qed

lemma dmbus_fd_handler_inv:
  assumes "dmbus_fd_handler p s = Some s'" and "buf_inv p s"
  shows "buf_inv p s'"
proof -
  from dmbus_fd_handler_read_inv [OF assms(2)] obtain m s1 where
    a: "dmbus_fd_handler_read p s = Some (m, s1)" "buf_inv p s1" by blast
  from sync_recv_inv [OF a(2)] obtain m2 s2 where
    b: "sync_recv p s1 = Some (m2, s2)" "buf_inv p s2" by blast
  from assms(1) a b show ?thesis
    by (auto simp: dmbus_fd_handler_def split: if_splits dest: dmbus_fd_handler_dispatch_inv)
qed

lemma dmbus_sync_recv_loop_inv:
  "dmbus_sync_recv_loop p t s = Some r \<Longrightarrow> buf_inv p s \<Longrightarrow> buf_inv p (snd r)"
proof (induction rule: dmbus_sync_recv_loop.raw_induct [rotated, consumes 1])
  case (1 f p t s r)
  show ?case
  proof (cases "msg_type p (buff s) \<noteq> word_of_int t")
    case False
    with 1 show ?thesis by auto
  next
    case True
    with "1.hyps" obtain s1 where s1: "pop_message p (handle_message p s) = Some s1"
      by (auto split: option.splits)
    from pop_message_inv [OF s1] "1.prems" have "buf_inv p s1" by simp
    from sync_recv_inv [OF this] obtain m2 s2 where
      b: "sync_recv p s1 = Some (m2, s2)" "buf_inv p s2" by blast
    from True "1.hyps" "1.prems" s1 b "1.IH" [of p t s2 r] show ?thesis
      by (auto split: if_splits)
  qed
qed

lemma dmbus_sync_recv_inv:
  assumes "dmbus_sync_recv p s t sz = Some (rc, out, s')" and "buf_inv p s"
  shows "buf_inv p s'"
proof -
  from sync_recv_inv [OF assms(2)] obtain m1 s1 where
    a: "sync_recv p s = Some (m1, s1)" "buf_inv p s1" by blast
  show ?thesis
  proof (cases m1)
    case False
    with assms(1) a show ?thesis by (simp add: dmbus_sync_recv_def)
  next
    case True
    with assms(1) a obtain m2 s2 where b: "dmbus_sync_recv_loop p t s1 = Some (m2, s2)"
      by (auto simp: dmbus_sync_recv_def split: option.splits)
    from dmbus_sync_recv_loop_inv [OF b a(2)] have i: "buf_inv p s2" by simp
    from assms(1) a True b i show ?thesis
      by (auto simp: dmbus_sync_recv_def Let_def split: if_splits option.splits
          dest: pop_message_inv)
  qed
qed

text \<open>
  C8: from a state with \<open>0 \<le> len \<le> DMBUS_MAX_MSG_LEN\<close> (and \<open>buff\<close> the array of that
  size), the append of received bytes, \<open>pop_message\<close> (which is defined on every complete
  frame), \<open>sync_recv\<close> (which always returns from such a state), \<open>dmbus_fd_handler\<close> and
  \<open>dmbus_sync_recv\<close> all end in a state with the same invariant.
\<close>

theorem buffer_invariant:
  assumes "buf_inv p s"
  shows "(\<forall>d bs s1. recv_buff p d s = Some (Rc_bytes bs, s1) \<longrightarrow>
            buf_inv p (s1\<lparr>len := len s1 + int (length bs)\<rparr>)) \<and>
         (\<forall>s'. pop_message p s = Some s' \<longrightarrow> buf_inv p s') \<and>
         (sizes_ok p \<and> complete p s \<longrightarrow> (\<exists>s'. pop_message p s = Some s')) \<and>
         (\<exists>m s'. sync_recv p s = Some (m, s') \<and> buf_inv p s') \<and>
         (\<forall>s'. dmbus_fd_handler p s = Some s' \<longrightarrow> buf_inv p s') \<and>
         (\<forall>t sz rc out s'. dmbus_sync_recv p s t sz = Some (rc, out, s') \<longrightarrow> buf_inv p s')"
proof -
  have "\<exists>s'. pop_message p s = Some s'" if "sizes_ok p \<and> complete p s"
    using that pop_message_complete [OF _ assms] by simp
  with assms recv_buff_append_inv [of p _ s] pop_message_inv [of p s] sync_recv_inv [of p s]
    dmbus_fd_handler_inv [of p s] dmbus_sync_recv_inv [of p s]
  show ?thesis by blast
qed

theorem buffer_invariant_witness:
  "buf_inv proto8 yzx \<and>
   dmbus_fd_handler proto8 yzx = Some yzx_fd \<and> buf_inv proto8 yzx_fd \<and>
   dmbus_sync_recv proto8 yzx 2 100 = Some (10, frame_X, yzx_recv) \<and> buf_inv proto8 yzx_recv \<and>
   pop_message proto8 yzx_fd = Some yzx_fd"
proof -
  have p: "pop_message proto8 yzx_fd = Some yzx_fd"
    by (simp add: pop_message_def lt_size_t_def yzx_fd_def proto8_sel(1,2) Let_def)
  from buffer_invariant [OF buf_inv_yzx] fd_yzx recv_yzx
  have "buf_inv proto8 yzx_fd" "buf_inv proto8 yzx_recv"
    by blast+
  with buf_inv_yzx fd_yzx recv_yzx p show ?thesis by simp
qed

section \<open>The dispatch-and-pop step and the dispatch loop of the handler\<close>

lemma handle_message_buffer [simp]:
  "buff (handle_message p s) = buff s" "len (handle_message p s) = len s"
  "rx (handle_message p s) = rx s"
  by (simp_all add: handle_message_def Let_def emit_def fprintf_stderr_def split: option.splits)

lemma complete_handle_message [simp]: "complete p (handle_message q s) = complete p s"
  by (simp add: complete_def)

lemma dispatch_pop_decreases:
  assumes "sizes_ok p" and "buf_inv p s" and "complete p s"
    and "hdr_size p \<le> unat (msg_len p (buff s))"
  shows "\<exists>s1. pop_message p (handle_message p s) = Some s1 \<and>
           len s1 = len s - uint (msg_len p (buff s)) \<and> len s1 < len s \<and>
           rx s1 = rx s \<and> buf_inv p s1"
proof -
  let ?h = "handle_message p s"
  let ?L = "msg_len p (buff s)"
  let ?s1 = "?h\<lparr>buff := drop (unat (msg_len p (buff ?h))) (take (nat (len ?h)) (buff ?h))
                      @ drop (nat (len ?h) - unat (msg_len p (buff ?h))) (buff ?h),
                len := len ?h - uint (msg_len p (buff ?h))\<rparr>"
  have c: "complete p ?h" "buf_inv p ?h"
    by (simp_all add: assms(2,3))
  from assms(1) have "0 < hdr_size p"
    by (simp add: sizes_ok_def)
  with assms(4) have "0 < unat ?L" by linarith
  moreover have "uint ?L = int (unat ?L)"
    by (rule uint_nat)
  ultimately have l: "0 < uint ?L"
    by linarith
  have p1: "pop_message p ?h = Some ?s1"
    by (rule pop_message_complete [OF assms(1) c(2,1)])
  have i: "buf_inv p ?s1"
    by (rule pop_message_inv [OF p1 c(2)])
  have "len ?s1 = len s - uint ?L" "rx ?s1 = rx s"
    by simp_all
  moreover from l have "len ?s1 < len s"
    by simp
  ultimately show ?thesis
    using p1 i by blast
qed

lemma fd_dispatch_terminates:
  assumes "sizes_ok p"
  shows "buf_inv p s \<Longrightarrow>
    (\<And>x. fd_front p s x \<Longrightarrow> complete p x \<Longrightarrow> hdr_size p \<le> unat (msg_len p (buff x))) \<Longrightarrow>
    \<exists>s'. dmbus_fd_handler_dispatch p s = Some s' \<and> \<not> complete p s' \<and> fd_front p s s'"
proof (induction "nat (len s)" arbitrary: s rule: less_induct)
  case less
  show ?case
  proof (cases "complete p s")
    case False
    then show ?thesis
      by (subst dmbus_fd_handler_dispatch.simps) (simp add: fd_here)
  next
    case True
    with less.prems(2) [OF fd_here] have "hdr_size p \<le> unat (msg_len p (buff s))" .
    from dispatch_pop_decreases [OF assms less.prems(1) True this] obtain s1 where
      s1: "pop_message p (handle_message p s) = Some s1" "len s1 < len s" "buf_inv p s1"
      by blast
    from s1(2,3) have "nat (len s1) < nat (len s)"
      by (simp add: buf_inv_def)
    from less.hyps [OF this s1(3)] less.prems(2) fd_next [OF True s1(1)]
    obtain s' where "dmbus_fd_handler_dispatch p s1 = Some s'" "\<not> complete p s'" "fd_front p s1 s'"
      by blast
    with True s1(1) show ?thesis
      by (subst dmbus_fd_handler_dispatch.simps) (auto intro: fd_next)
  qed
qed

lemmas st12_defs = replicate_numeral_Cons st12_def st12_popped_def idle_def frame_Y_def all_ops_def
  proto8_sel le32_def
  incomplete_def complete_def lt_size_t_def lt_u32_def recv_buff_def
  handle_message_def pop_message_def memmove_def Let_def
  handle_disconnect_def qemu_timer_pending_def emit_def fprintf_stderr_def
  qemu_mod_timer_def v4v_close_def qemu_set_fd_handler_def

lemma st12_complete: "complete proto8 st12" "\<not> complete proto8 st12_popped"
  by (simp_all add: st12_defs)

lemma st12_pop: "pop_message proto8 (handle_message proto8 st12) = Some st12_popped"
  by (simp add: st12_defs)

lemma st12_fd_front:
  assumes "fd_front proto8 st12 x"
  shows "x = st12 \<or> x = st12_popped"
  using assms
proof cases
  case fd_here
  then show ?thesis by simp
next
  case (fd_next s1)
  then have "fd_front proto8 st12_popped x"
    by (simp add: st12_pop)
  then show ?thesis
    by cases (simp_all add: st12_complete)
qed

section \<open>Frames in the byte stream\<close>

lemma pending_length: "buf_inv p s \<Longrightarrow> length (pending s) = nat (len s)"
  by (auto simp: pending_def buf_inv_def)

lemma front_prefix:
  assumes "pending s @ x = f @ r" and "length f \<le> length (pending s)"
  shows "pending s = f @ drop (length f) (pending s)"
    and "drop (length f) (pending s) @ x = r"
proof -
  from assms(1) have "take (length f) (pending s @ x) = take (length f) (f @ r)"
    by simp
  with assms(2) have t: "take (length f) (pending s) = f"
    by simp
  then show a: "pending s = f @ drop (length f) (pending s)"
    by (metis append_take_drop_id)
  from assms(1) have "drop (length f) (pending s @ x) = drop (length f) (f @ r)"
    by simp
  with assms(2) show "drop (length f) (pending s) @ x = r"
    by simp
qed

lemma front_header:
  assumes "hdr_local p" and "frame p f" and "buf_inv p s"
    and "pending s @ x = f @ r" and "int (hdr_size p) \<le> len s"
  shows "msg_type p (buff s) = msg_type p f \<and> msg_len p (buff s) = msg_len p f"
proof -
  let ?h = "hdr_size p"
  from assms(5) have n: "?h \<le> nat (len s)" by simp
  then have "take ?h (buff s) = take ?h (pending s)"
    by (simp add: pending_def min_def)
  also from n assms(3) have "\<dots> = take ?h (pending s @ x)"
    by (simp add: pending_length)
  also from assms(4) have "\<dots> = take ?h (f @ r)" by simp
  also from assms(2) have "\<dots> = take ?h f"
    by (simp add: frame_def)
  finally have "take ?h (buff s) = take ?h f" .
  with assms(1) show ?thesis
    unfolding hdr_local_def by blast
qed

lemma incomplete_front:
  assumes "sizes_ok p" and "hdr_local p" and "frame p f" and "buf_inv p s"
    and "pending s @ x = f @ r"
  shows "incomplete p s \<longleftrightarrow> len s < int (length f)"
proof -
  from assms(1,4) have b: "0 \<le> len s" "len s < 2 ^ 31"
    by (simp_all add: sizes_ok_def buf_inv_def)
  have i: "incomplete p s \<longleftrightarrow> len s < int (hdr_size p) \<or> len s < uint (msg_len p (buff s))"
    by (simp add: incomplete_def lt_size_t_int [OF b] lt_u32_uint [OF b])
  show ?thesis
  proof (cases "len s < int (hdr_size p)")
    case True
    with assms(3) i show ?thesis
      by (simp add: frame_def)
  next
    case False
    then have "int (hdr_size p) \<le> len s" by simp
    from front_header [OF assms(2,3,4,5) this]
    have "msg_len p (buff s) = msg_len p f" by simp
    moreover have "uint (msg_len p f) = int (unat (msg_len p f))"
      by (rule uint_nat)
    ultimately have "uint (msg_len p (buff s)) = int (unat (msg_len p f))"
      by simp
    with assms(3) False i show ?thesis
      by (simp add: frame_def)
  qed
qed

lemma v4v_recv_alive:
  assumes "rx_alive es1" and "es1 \<noteq> []" and "0 < n" and "v4v_recv d n (es1 @ es2) = (rc, es')"
  shows "\<exists>es1'. es' = es1' @ es2 \<and> rx_alive es1' \<and> rx_size es1' < rx_size es1 \<and>
           (case rc of
              Rc_error e \<Rightarrow> e = EINTR \<and> rx_bytes es1' = rx_bytes es1
            | Rc_bytes bs \<Rightarrow> bs \<noteq> [] \<and> length bs \<le> n \<and> bs @ rx_bytes es1' = rx_bytes es1)"
proof (cases es1)
  case Nil
  with assms(2) show ?thesis by simp
next
  case (Cons e es)
  show ?thesis
  proof (cases e)
    case (Rx_error x)
    with Cons assms show ?thesis
      by (intro exI [of _ es]) auto
  next
    case (Rx_data bs)
    show ?thesis
    proof (cases "length bs \<le> n")
      case True
      with Rx_data Cons assms show ?thesis
        by (intro exI [of _ es]) auto
    next
      case False
      with Rx_data Cons assms show ?thesis
        by (intro exI [of _ "Rx_data (drop n bs) # es"]) auto
    qed
  qed
qed

lemma recv_buff_alive:
  assumes "buf_inv p s" and "rx s = es1 @ es2" and "rx_alive es1" and "es1 \<noteq> []"
    and "len s < int (max_msg_len p)"
  shows "\<exists>rc s1 es1'. recv_buff p d s = Some (rc, s1) \<and>
           rx s1 = es1' @ es2 \<and> rx_alive es1' \<and> rx_size es1' < rx_size es1 \<and>
           trace s1 = trace s \<and> ops s1 = ops s \<and> len s1 = len s \<and> buf_inv p s1 \<and>
           (case rc of
              Rc_error e \<Rightarrow> e = EINTR \<and> rx_bytes es1' = rx_bytes es1 \<and> pending s1 = pending s
            | Rc_bytes bs \<Rightarrow> bs \<noteq> [] \<and> bs @ rx_bytes es1' = rx_bytes es1 \<and>
                buf_inv p (s1\<lparr>len := len s1 + int (length bs)\<rparr>) \<and>
                pending (s1\<lparr>len := len s1 + int (length bs)\<rparr>) = pending s @ bs)"
proof -
  let ?n = "max_msg_len p - nat (len s)"
  from assms(1,5) have n: "0 < ?n" and b: "0 \<le> len s" "nat (len s) \<le> length (buff s)"
    by (auto simp: buf_inv_def)
  obtain rc es' where v: "v4v_recv d ?n (rx s) = (rc, es')"
    by (cases "v4v_recv d ?n (rx s)")
  from v4v_recv_alive [OF assms(3,4) n v [unfolded assms(2)]] obtain es1' where
    e: "es' = es1' @ es2" "rx_alive es1'" "rx_size es1' < rx_size es1"
      "case rc of Rc_error e \<Rightarrow> e = EINTR \<and> rx_bytes es1' = rx_bytes es1
       | Rc_bytes bs \<Rightarrow> bs \<noteq> [] \<and> length bs \<le> ?n \<and> bs @ rx_bytes es1' = rx_bytes es1"
    by blast
  from recv_buff_total [OF assms(1)] obtain rc' s1 where r: "recv_buff p d s = Some (rc', s1)"
    by blast
  with v assms(1) have rc': "rc' = rc" and s1: "rx s1 = es'"
    by (auto simp: recv_buff_def buf_inv_def split: recv_rc.splits)
  note k = recv_buff_keeps [OF r] and i = recv_buff_inv [OF r]
  show ?thesis
  proof (cases rc)
    case (Rc_error x)
    with r v rc' assms(1) have "pending s1 = pending s"
      by (auto simp: recv_buff_def buf_inv_def pending_def split: recv_rc.splits)
    with Rc_error r rc' s1 e k i show ?thesis
      by (intro exI [of _ rc] exI [of _ s1] exI [of _ es1']) simp
  next
    case (Rc_bytes bs)
    with r v rc' assms(1) have
      "buff s1 = take (nat (len s)) (buff s) @ bs @ drop (nat (len s) + length bs) (buff s)"
      by (auto simp: recv_buff_def buf_inv_def split: recv_rc.splits)
    with b k have "pending (s1\<lparr>len := len s1 + int (length bs)\<rparr>) = pending s @ bs"
      by (simp add: pending_def nat_add_distrib)
    moreover from r rc' Rc_bytes have "buf_inv p (s1\<lparr>len := len s1 + int (length bs)\<rparr>)"
      by (simp add: recv_buff_append_inv)
    ultimately show ?thesis
      using Rc_bytes r rc' s1 e k i
      by (intro exI [of _ rc] exI [of _ s1] exI [of _ es1']) simp
  qed
qed

lemma sync_recv_front:
  assumes "sizes_ok p" and "hdr_local p" and "frame p f"
  shows "buf_inv p s \<Longrightarrow> rx s = es1 @ es2 \<Longrightarrow> rx_alive es1 \<Longrightarrow>
     pending s @ rx_bytes es1 = f @ r \<Longrightarrow>
     \<exists>s' es1'. sync_recv p s = Some (True, s') \<and> buf_inv p s' \<and> rx s' = es1' @ es2 \<and>
        rx_alive es1' \<and> pending s' @ rx_bytes es1' = f @ r \<and> int (length f) \<le> len s' \<and>
        trace s' = trace s \<and> ops s' = ops s"
proof (induction "rx_size es1" arbitrary: s es1 rule: less_induct)
  case less
  note i = incomplete_front [OF assms less.prems(1,4)]
  show ?case
  proof (cases "incomplete p s")
    case False
    then have "sync_recv p s = Some (True, s)"
      by (simp add: sync_recv.simps [of p s])
    with less.prems False i show ?thesis
      by (intro exI [of _ s] exI [of _ es1]) simp
  next
    case True
    with i have l: "len s < int (length f)" by simp
    with assms(3) have c: "len s < int (max_msg_len p)"
      by (simp add: frame_def)
    from less.prems(1) have "length (pending s) = nat (len s)"
      by (rule pending_length)
    then have pl: "int (length (pending s)) < int (length f)"
      using l less.prems(1) by (simp add: buf_inv_def)
    have "rx_bytes es1 \<noteq> []"
    proof
      assume "rx_bytes es1 = []"
      with less.prems(4) have "length (pending s) = length f + length r"
        by (metis append_Nil2 length_append)
      with pl show False by simp
    qed
    then have ne: "es1 \<noteq> []" by auto
    from recv_buff_alive [OF less.prems(1,2,3) ne c, of False] obtain rc s1 es1' where
      r: "recv_buff p False s = Some (rc, s1)" "rx s1 = es1' @ es2" "rx_alive es1'"
        "rx_size es1' < rx_size es1" "trace s1 = trace s" "ops s1 = ops s" "len s1 = len s"
        "buf_inv p s1"
        "case rc of
           Rc_error e \<Rightarrow> e = EINTR \<and> rx_bytes es1' = rx_bytes es1 \<and> pending s1 = pending s
         | Rc_bytes bs \<Rightarrow> bs \<noteq> [] \<and> bs @ rx_bytes es1' = rx_bytes es1 \<and>
             buf_inv p (s1\<lparr>len := len s1 + int (length bs)\<rparr>) \<and>
             pending (s1\<lparr>len := len s1 + int (length bs)\<rparr>) = pending s @ bs"
      by blast
    show ?thesis
    proof (cases rc)
      case (Rc_error e)
      with r(9) have e: "e = EINTR" "rx_bytes es1' = rx_bytes es1" "pending s1 = pending s"
        by simp_all
      from True r(1) Rc_error e(1) have u: "sync_recv p s = sync_recv p s1"
        by (simp add: sync_recv.simps [of p s])
      from less.prems(4) e have "pending s1 @ rx_bytes es1' = f @ r" by simp
      from less.hyps [OF r(4) r(8) r(2) r(3) this] r(5,6) show ?thesis
        unfolding u by simp
    next
      case (Rc_bytes bs)
      let ?s = "s1\<lparr>len := len s1 + int (length bs)\<rparr>"
      from Rc_bytes r(9) have e: "bs \<noteq> []" "bs @ rx_bytes es1' = rx_bytes es1"
        "buf_inv p ?s" "pending ?s = pending s @ bs"
        by simp_all
      from True r(1) Rc_bytes e(1) have u: "sync_recv p s = sync_recv p ?s"
        by (simp add: sync_recv.simps [of p s])
      from less.prems(4) e(2,4) have "pending ?s @ rx_bytes es1' = f @ r"
        by (metis append_assoc)
      moreover from r(2) have "rx ?s = es1' @ es2" by simp
      ultimately have "\<exists>s' es1''. sync_recv p ?s = Some (True, s') \<and> buf_inv p s' \<and>
          rx s' = es1'' @ es2 \<and> rx_alive es1'' \<and> pending s' @ rx_bytes es1'' = f @ r \<and>
          int (length f) \<le> len s' \<and> trace s' = trace ?s \<and> ops s' = ops ?s"
        using less.hyps [OF r(4) e(3) _ r(3)] by blast
      with r(5,6) show ?thesis
        unfolding u by simp
    qed
  qed
qed

lemma pop_message_front:
  assumes "sizes_ok p" and "hdr_local p" and "frame p f" and "buf_inv p s"
    and "pending s @ x = f @ r" and "int (length f) \<le> len s"
  shows "\<exists>s'. pop_message p s = Some s' \<and> buf_inv p s' \<and> pending s' @ x = r \<and>
           rx s' = rx s \<and> trace s' = trace s \<and> ops s' = ops s"
proof -
  from assms(3,6) have h: "int (hdr_size p) \<le> len s"
    by (simp add: frame_def)
  from front_header [OF assms(2,3,4,5) h] assms(3)
  have L: "unat (msg_len p (buff s)) = length f"
    by (simp add: frame_def)
  have "uint (msg_len p (buff s)) = int (unat (msg_len p (buff s)))"
    by (rule uint_nat)
  with L have U: "uint (msg_len p (buff s)) = int (length f)" by simp
  from assms(1,4,6) h U have c: "complete p s"
    by (simp add: complete_iff)
  let ?s = "s\<lparr>buff := drop (unat (msg_len p (buff s))) (take (nat (len s)) (buff s))
                      @ drop (nat (len s) - unat (msg_len p (buff s))) (buff s),
              len := len s - uint (msg_len p (buff s))\<rparr>"
  have p1: "pop_message p s = Some ?s"
    by (rule pop_message_complete [OF assms(1,4) c])
  have i: "buf_inv p ?s"
    by (rule pop_message_inv [OF p1 assms(4)])
  from assms(4,6) have "length f \<le> length (pending s)"
    by (simp add: pending_length)
  note q = front_prefix [OF assms(5) this]
  from assms(4,6) have "nat (len s - int (length f)) = length (pending s) - length f"
    by (simp add: pending_length nat_diff_distrib)
  then have "pending ?s = drop (length f) (pending s)"
    unfolding pending_def by (simp add: L U del: drop_take)
  with q(2) have "pending ?s @ x = r" by simp
  with p1 i show ?thesis
    by (intro exI [of _ ?s]) simp
qed

lemma front_frame:
  assumes "hdr_local p" and "frame p f" and "buf_inv p s"
    and "pending s @ x = f @ r" and "int (length f) \<le> len s"
  shows "msg_type p (buff s) = msg_type p f" and "msg_len p (buff s) = msg_len p f"
    and "take (length f) (buff s) = f"
proof -
  from assms(2,5) have h: "int (hdr_size p) \<le> len s"
    by (simp add: frame_def)
  from front_header [OF assms(1,2,3,4) h]
  show "msg_type p (buff s) = msg_type p f" and "msg_len p (buff s) = msg_len p f"
    by simp_all
  from assms(3,5) have l: "length f \<le> length (pending s)"
    by (simp add: pending_length)
  from assms(5) have "length f \<le> nat (len s)" by simp
  then have "take (length f) (buff s) = take (length f) (pending s)"
    by (simp add: pending_def min_def)
  also from front_prefix(1) [OF assms(4) l] have "\<dots> = f"
    by (metis append_eq_conv_conj)
  finally show "take (length f) (buff s) = f" .
qed

lemma tags_ok_neq:
  assumes "tags_ok p"
  shows "DMBUS_MSG_DOM0_INPUT_EVENT p \<noteq> DMBUS_MSG_DISPLAY_INFO p"
    "DMBUS_MSG_DOM0_INPUT_EVENT p \<noteq> DMBUS_MSG_DISPLAY_EDID p"
    "DMBUS_MSG_DOM0_INPUT_EVENT p \<noteq> DMBUS_MSG_DEVICE_MODEL_READY p"
    "DMBUS_MSG_DOM0_INPUT_EVENT p \<noteq> DMBUS_MSG_INPUT_CONFIG p"
    "DMBUS_MSG_DOM0_INPUT_EVENT p \<noteq> DMBUS_MSG_INPUT_CONFIG_RESET p"
    "DMBUS_MSG_DISPLAY_INFO p \<noteq> DMBUS_MSG_DISPLAY_EDID p"
    "DMBUS_MSG_DISPLAY_INFO p \<noteq> DMBUS_MSG_DEVICE_MODEL_READY p"
    "DMBUS_MSG_DISPLAY_INFO p \<noteq> DMBUS_MSG_INPUT_CONFIG p"
    "DMBUS_MSG_DISPLAY_INFO p \<noteq> DMBUS_MSG_INPUT_CONFIG_RESET p"
    "DMBUS_MSG_DISPLAY_EDID p \<noteq> DMBUS_MSG_DEVICE_MODEL_READY p"
    "DMBUS_MSG_DISPLAY_EDID p \<noteq> DMBUS_MSG_INPUT_CONFIG p"
    "DMBUS_MSG_DISPLAY_EDID p \<noteq> DMBUS_MSG_INPUT_CONFIG_RESET p"
    "DMBUS_MSG_DEVICE_MODEL_READY p \<noteq> DMBUS_MSG_INPUT_CONFIG p"
    "DMBUS_MSG_DEVICE_MODEL_READY p \<noteq> DMBUS_MSG_INPUT_CONFIG_RESET p"
    "DMBUS_MSG_INPUT_CONFIG p \<noteq> DMBUS_MSG_INPUT_CONFIG_RESET p"
  using assms by (simp_all add: tags_ok_def known_tags_def)

text \<open>
  \<open>handle_message\<close> against the spec's dispatch: on a state with the frame \<open>f\<close> at the front
  of the buffer it adds to the trace what the spec says for \<open>f\<close>, and changes nothing else.
\<close>

lemma handle_message_front:
  assumes "tags_ok p" and "hdr_local p" and "frame p f" and "buf_inv p s"
    and "pending s @ x = f @ r" and "int (length f) \<le> len s"
  shows "handle_message p s = s\<lparr>trace := trace s @ dispatched p (ops s) f\<rparr>"
proof (cases "ops s")
  case None
  then show ?thesis
    by (simp add: handle_message_def)
next
  case (Some h)
  note f = front_frame [OF assms(2-6)]
  from assms(3) have "unat (msg_len p f) = length f"
    by (simp add: frame_def)
  with f(2,3) have m: "take (unat (msg_len p (buff s))) (buff s) = f"
    by simp
  note d = tags_ok_neq [OF assms(1)]
  note u = handle_message_def spec_dispatch_def slot_of_def Let_def Some f(1) m d d [symmetric]
    emit_def fprintf_stderr_def
  consider "msg_type p f = DMBUS_MSG_DOM0_INPUT_EVENT p"
    | "msg_type p f = DMBUS_MSG_DISPLAY_INFO p"
    | "msg_type p f = DMBUS_MSG_DISPLAY_EDID p"
    | "msg_type p f = DMBUS_MSG_DEVICE_MODEL_READY p"
    | "msg_type p f = DMBUS_MSG_INPUT_CONFIG p"
    | "msg_type p f = DMBUS_MSG_INPUT_CONFIG_RESET p"
    | "msg_type p f \<notin> set (known_tags p)"
    by (auto simp: known_tags_def)
  then show ?thesis
  proof cases
    case 1
    then show ?thesis by (simp add: u)
  next
    case 2
    then show ?thesis by (simp add: u)
  next
    case 3
    then show ?thesis by (simp add: u)
  next
    case 4
    then show ?thesis by (simp add: u)
  next
    case 5
    then show ?thesis by (simp add: u)
  next
    case 6
    then show ?thesis by (simp add: u)
  next
    case 7
    then show ?thesis by (simp add: u known_tags_def)
  qed
qed

lemma sint_of_nat_small:
  assumes "n < 2 ^ 31"
  shows "sint (word_of_nat n :: 32 word) = int n"
proof -
  from assms have "n < 2 ^ 32" by simp
  then have "unat (word_of_nat n :: 32 word) = n"
    by (simp add: unat_of_nat)
  moreover have "uint (word_of_nat n :: 32 word) = int (unat (word_of_nat n :: 32 word))"
    by (rule uint_nat)
  ultimately have u: "uint (word_of_nat n :: 32 word) = int n" by simp
  with assms have "uint (word_of_nat n :: 32 word) < 2 ^ 31" by simp
  from sint_small [OF this] u show ?thesis by simp
qed

lemma pending_trace [simp]: "pending (s\<lparr>trace := x\<rparr>) = pending s"
  by (simp add: pending_def)

lemma buf_inv_trace [simp]: "buf_inv p (s\<lparr>trace := x\<rparr>) = buf_inv p s"
  by (simp add: buf_inv_def)

lemma next_frame:
  assumes "\<forall>y\<in>set ys. frame p y \<and> msg_type p y \<noteq> w" and "frame p x"
  shows "\<exists>r'. concat ys @ x @ r = hd (ys @ [x]) @ r' \<and> frame p (hd (ys @ [x]))"
  using assms by (cases ys) auto

lemma dmbus_sync_recv_loop_frames:
  assumes "sizes_ok p" and "hdr_local p" and "frame p x" and "msg_type p x = word_of_int t"
    and "tags_ok p"
  shows "\<forall>y\<in>set ys. frame p y \<and> msg_type p y \<noteq> word_of_int t \<Longrightarrow>
     buf_inv p s \<Longrightarrow> rx s = es1 @ es2 \<Longrightarrow> rx_alive es1 \<Longrightarrow>
     pending s @ rx_bytes es1 = concat ys @ x @ r \<Longrightarrow> int (length (hd (ys @ [x]))) \<le> len s \<Longrightarrow>
     \<exists>s' es1'. dmbus_sync_recv_loop p t s = Some (True, s') \<and> buf_inv p s' \<and>
        rx s' = es1' @ es2 \<and> rx_alive es1' \<and> pending s' @ rx_bytes es1' = x @ r \<and>
        int (length x) \<le> len s' \<and>
        trace s' = trace s @ concat (map (dispatched p (ops s)) ys) \<and> ops s' = ops s"
proof (induction ys arbitrary: s es1)
  case Nil
  then have "pending s @ rx_bytes es1 = x @ r" "int (length x) \<le> len s"
    by simp_all
  from front_frame(1) [OF assms(2,3) Nil.prems(2) this] assms(4)
  have "dmbus_sync_recv_loop p t s = Some (True, s)"
    by (subst dmbus_sync_recv_loop.simps) simp
  with Nil.prems \<open>pending s @ rx_bytes es1 = x @ r\<close> show ?case
    by (intro exI [of _ s] exI [of _ es1]) simp
next
  case (Cons y ys)
  from Cons.prems(1) have y: "frame p y" "msg_type p y \<noteq> word_of_int t"
    and ys: "\<forall>y\<in>set ys. frame p y \<and> msg_type p y \<noteq> word_of_int t"
    by simp_all
  from Cons.prems(5,6) have st: "pending s @ rx_bytes es1 = y @ concat ys @ x @ r"
    and l: "int (length y) \<le> len s"
    by simp_all
  let ?h = "s\<lparr>trace := trace s @ dispatched p (ops s) y\<rparr>"
  have h: "handle_message p s = ?h"
    by (rule handle_message_front [OF assms(5,2) y(1) Cons.prems(2) st l])
  from front_frame(1) [OF assms(2) y(1) Cons.prems(2) st l] y(2)
  have ty: "msg_type p (buff s) \<noteq> word_of_int t" by simp
  have "\<exists>s1. pop_message p ?h = Some s1 \<and> buf_inv p s1 \<and>
          pending s1 @ rx_bytes es1 = concat ys @ x @ r \<and>
          rx s1 = rx ?h \<and> trace s1 = trace ?h \<and> ops s1 = ops ?h"
    by (rule pop_message_front [OF assms(1,2) y(1)])
       (simp_all add: Cons.prems(2) st l)
  then obtain s1 where s1: "pop_message p ?h = Some s1" "buf_inv p s1"
    "pending s1 @ rx_bytes es1 = concat ys @ x @ r" "rx s1 = es1 @ es2"
    "trace s1 = trace s @ dispatched p (ops s) y" "ops s1 = ops s"
    using Cons.prems(3) by auto
  from next_frame [OF ys assms(3)] obtain r' where
    n: "concat ys @ x @ r = hd (ys @ [x]) @ r'" "frame p (hd (ys @ [x]))"
    by blast
  from sync_recv_front [OF assms(1,2) n(2) s1(2,4) Cons.prems(4) s1(3) [unfolded n(1)]]
  obtain s2 es1' where s2: "sync_recv p s1 = Some (True, s2)" "buf_inv p s2"
    "rx s2 = es1' @ es2" "rx_alive es1'" "pending s2 @ rx_bytes es1' = concat ys @ x @ r"
    "int (length (hd (ys @ [x]))) \<le> len s2" "trace s2 = trace s1" "ops s2 = ops s1"
    unfolding n(1) [symmetric] by blast
  from Cons.IH [OF ys s2(2,3,4,5,6)] obtain s' es1'' where
    s': "dmbus_sync_recv_loop p t s2 = Some (True, s')" "buf_inv p s'" "rx s' = es1'' @ es2"
    "rx_alive es1''" "pending s' @ rx_bytes es1'' = x @ r" "int (length x) \<le> len s'"
    "trace s' = trace s2 @ concat (map (dispatched p (ops s2)) ys)" "ops s' = ops s2"
    by blast
  from ty h s1(1) s2(1) s'(1) have "dmbus_sync_recv_loop p t s = Some (True, s')"
    by (subst dmbus_sync_recv_loop.simps) simp
  with s' s2(7,8) s1(5,6) show ?case
    by (intro exI [of _ s'] exI [of _ es1'']) simp
qed

lemma yzx_frames:
  "frame proto8 frame_Y" "frame proto8 frame_Z" "frame proto8 frame_X"
  "msg_type proto8 frame_Y = 1" "msg_type proto8 frame_Z = 99" "msg_type proto8 frame_X = 2"
  by (simp_all add: frame_def proto8_sel le32_def frame_Y_def frame_Z_def frame_X_def)

lemma yzx_stream:
  "rx_alive (rx yzx)"
  "pending yzx @ rx_bytes (rx yzx) = frame_Y @ frame_Z @ frame_X @ [3, 0]"
  by (simp_all add: yzx_def idle_def pending_def frame_Y_def frame_Z_def frame_X_def)

lemma yzx_dispatch:
  "spec_dispatch proto8 all_ops frame_Y = [Call Dom0_input_event frame_Y]"
  "spec_dispatch proto8 all_ops frame_Z = [Fprintf (Unrecognized_message_ID 99)]"
  by (simp_all add: spec_dispatch_def slot_of_def yzx_frames proto8_sel(6-11) all_ops_def)

text \<open>
  C5: let the bytes still in the buffer and the bytes the transport delivers next be the
  frames \<open>ys\<close>, none of type \<open>t\<close>, then a frame \<open>x\<close> of type \<open>t\<close>, then \<open>r\<close>, however
  the reads cut them. Then \<open>dmbus_sync_recv\<close> for the type \<open>t\<close> returns; the trace grows by
  what the spec's dispatch gives for each frame of \<open>ys\<close>, in order (its handler called
  with the frame where the slot of its tag is set, one line on stderr where the tag is
  unrecognized, nothing otherwise, and nothing at all without a capability table); the
  caller gets the first \<open>sz\<close> bytes of \<open>x\<close> and their number as result; and what is left
  in the buffer and in the transport is \<open>r\<close>: nothing of \<open>ys\<close>, nothing of \<open>x\<close>.
\<close>

theorem dmbus_sync_recv_frames:
  assumes "sizes_ok p" and "hdr_local p" and "buf_inv p s"
    and "rx s = es1 @ es2" and "rx_alive es1"
    and "pending s @ rx_bytes es1 = concat ys @ x @ r"
    and "\<forall>y\<in>set ys. frame p y \<and> msg_type p y \<noteq> word_of_int t"
    and "frame p x" and "msg_type p x = word_of_int t" and "tags_ok p"
  shows "\<exists>s' es1'. dmbus_sync_recv p s t sz = Some (int (min sz (length x)), take sz x, s') \<and>
           trace s' = trace s @ (case ops s of
                                   None \<Rightarrow> []
                                 | Some h \<Rightarrow> concat (map (spec_dispatch p h) ys)) \<and>
           rx s' = es1' @ es2 \<and> pending s' @ rx_bytes es1' = r \<and> buf_inv p s'"
proof -
  from next_frame [OF assms(7,8)] obtain r' where
    n: "concat ys @ x @ r = hd (ys @ [x]) @ r'" "frame p (hd (ys @ [x]))"
    by blast
  from sync_recv_front [OF assms(1,2) n(2) assms(3,4,5) assms(6) [unfolded n(1)]]
  obtain s1 e1 where s1: "sync_recv p s = Some (True, s1)" "buf_inv p s1"
    "rx s1 = e1 @ es2" "rx_alive e1" "pending s1 @ rx_bytes e1 = concat ys @ x @ r"
    "int (length (hd (ys @ [x]))) \<le> len s1" "trace s1 = trace s" "ops s1 = ops s"
    unfolding n(1) [symmetric] by blast
  from dmbus_sync_recv_loop_frames [OF assms(1,2,8,9,10,7) s1(2,3,4,5,6)]
  obtain s2 e2 where s2: "dmbus_sync_recv_loop p t s1 = Some (True, s2)" "buf_inv p s2"
    "rx s2 = e2 @ es2" "rx_alive e2" "pending s2 @ rx_bytes e2 = x @ r"
    "int (length x) \<le> len s2"
    "trace s2 = trace s1 @ concat (map (dispatched p (ops s1)) ys)" "ops s2 = ops s1"
    by blast
  have g: "concat (map (dispatched p (ops s)) ys) =
      (case ops s of None \<Rightarrow> [] | Some h \<Rightarrow> concat (map (spec_dispatch p h) ys))"
    by (cases "ops s") simp_all
  note f = front_frame [OF assms(2,8) s2(2,5,6)]
  from assms(8) have u: "unat (msg_len p x) = length x" and c: "length x \<le> max_msg_len p"
    by (simp_all add: frame_def)
  let ?n = "min sz (length x)"
  have k: "(if sz > unat (msg_len p (buff s2)) then unat (msg_len p (buff s2)) else sz) = ?n"
    by (simp add: f(2) u min_def)
  from c s2(2) have b: "?n \<le> length (buff s2)"
    by (simp add: buf_inv_def)
  from c assms(1) have "?n < 2 ^ 31"
    by (simp add: sizes_ok_def min_def)
  then have rc: "sint (word_of_nat ?n :: 32 word) = int ?n"
    by (rule sint_of_nat_small)
  have "take ?n (buff s2) = take ?n (take (length x) (buff s2))"
    by (simp add: min_def)
  moreover have "take ?n x = take sz x"
    by (cases "sz \<le> length x") (simp_all add: min_def)
  ultimately have d: "take ?n (buff s2) = take sz x"
    unfolding f(3) by simp
  from pop_message_front [OF assms(1,2,8) s2(2,5,6)] obtain s3 where
    s3: "pop_message p s2 = Some s3" "buf_inv p s3" "pending s3 @ rx_bytes e2 = r"
    "rx s3 = rx s2" "trace s3 = trace s2" "ops s3 = ops s2"
    by blast
  from s1(1) s2(1) s3(1) b have "dmbus_sync_recv p s t sz = Some (int ?n, take sz x, s3)"
    unfolding dmbus_sync_recv_def by (simp add: k Let_def rc d)
  with s3 s2(3,7) s1(7,8) g show ?thesis
    by (intro exI [of _ s3] exI [of _ e2]) simp
qed

theorem dmbus_sync_recv_frames_witness:
  "sizes_ok proto8 \<and> hdr_local proto8 \<and> tags_ok proto8 \<and> buf_inv proto8 yzx \<and>
   rx_alive (rx yzx) \<and>
   pending yzx @ rx_bytes (rx yzx) = frame_Y @ frame_Z @ frame_X @ [3, 0] \<and>
   frame proto8 frame_Y \<and> msg_type proto8 frame_Y = 1 \<and>
   frame proto8 frame_Z \<and> msg_type proto8 frame_Z = 99 \<and>
   frame proto8 frame_X \<and> msg_type proto8 frame_X = 2 \<and>
   dmbus_sync_recv proto8 yzx 2 100 = Some (10, frame_X, yzx_recv) \<and>
   trace yzx_recv = [Call Dom0_input_event frame_Y, Fprintf (Unrecognized_message_ID 99)] \<and>
   rx yzx_recv = [] \<and> pending yzx_recv = [3, 0]"
proof -
  have a: "rx yzx = rx yzx @ []" by simp
  have b: "pending yzx @ rx_bytes (rx yzx) = concat [frame_Y, frame_Z] @ frame_X @ [3, 0]"
    by (simp add: yzx_stream)
  have c: "\<forall>y\<in>set [frame_Y, frame_Z]. frame proto8 y \<and> msg_type proto8 y \<noteq> word_of_int 2"
    by (simp add: yzx_frames)
  have d: "msg_type proto8 frame_X = word_of_int 2"
    by (simp add: yzx_frames)
  from dmbus_sync_recv_frames [OF proto8_sizes_ok proto8_hdr_local buf_inv_yzx a yzx_stream(1)
      b c yzx_frames(3) d proto8_tags_ok, of 100]
  obtain s' es1' where s': "dmbus_sync_recv proto8 yzx 2 100 =
      Some (int (min 100 (length frame_X)), take 100 frame_X, s')"
    "trace s' = trace yzx @ (case ops yzx of
        None \<Rightarrow> []
      | Some h \<Rightarrow> concat (map (spec_dispatch proto8 h) [frame_Y, frame_Z]))"
    "rx s' = es1' @ []" "pending s' @ rx_bytes es1' = [3, 0]"
    by blast
  from s'(1) recv_yzx have e: "s' = yzx_recv" by simp
  have r: "rx yzx_recv = []"
    by (simp add: yzx_recv_def)
  with s'(3,4) e have p: "pending yzx_recv = [3, 0]" by simp
  have "trace yzx = []" "ops yzx = Some all_ops"
    by (simp_all add: yzx_def idle_def)
  with s'(2) e have t: "trace yzx_recv =
      [Call Dom0_input_event frame_Y, Fprintf (Unrecognized_message_ID 99)]"
    by (simp add: yzx_dispatch)
  from proto8_sizes_ok proto8_hdr_local proto8_tags_ok buf_inv_yzx yzx_stream yzx_frames
    recv_yzx t r p
  show ?thesis by simp
qed

section \<open>The loop of the blocking receive while the peer sends\<close>

lemma rx_alive_append: "rx_alive (a @ b) \<longleftrightarrow> rx_alive a \<and> rx_alive b"
  by (induction a rule: rx_alive.induct) auto

lemma rx_bytes_append: "rx_bytes (a @ b) = rx_bytes a @ rx_bytes b"
  by (induction a rule: rx_bytes.induct) auto

text \<open>With a peer that adds nothing, \<open>dmbus_sync_recv_loop_peer\<close> is \<open>dmbus_sync_recv_loop\<close>.\<close>

lemma dmbus_sync_recv_loop_peer_Some:
  "dmbus_sync_recv_loop_peer sent p t s = Some y \<Longrightarrow> sent = [] \<Longrightarrow>
   dmbus_sync_recv_loop p t s = Some y"
proof (induction rule: dmbus_sync_recv_loop_peer.raw_induct [rotated, consumes 1])
  case (1 f sent p t s y)
  show ?case
  proof (cases "msg_type p (buff s) \<noteq> word_of_int t")
    case False
    with "1.hyps" show ?thesis
      by (subst dmbus_sync_recv_loop.simps) simp
  next
    case True
    with "1.hyps" "1.prems" obtain s1 m s2 where
      s: "pop_message p (handle_message p s) = Some s1" "sync_recv p s1 = Some (m, s2)"
      by (auto split: option.splits)
    show ?thesis
    proof (cases m)
      case False
      with True s "1.hyps" "1.prems" have y: "y = (False, s2)"
        by auto
      from True s False show ?thesis
        unfolding y by (subst dmbus_sync_recv_loop.simps) simp
    next
      case m: True
      with True s "1.hyps" "1.prems" have "f sent p t s2 = Some y"
        by simp
      from "1.IH" [OF this "1.prems"] True s m show ?thesis
        by (subst dmbus_sync_recv_loop.simps) simp
    qed
  qed
qed

lemma dmbus_sync_recv_loop_Some:
  "dmbus_sync_recv_loop p t s = Some y \<Longrightarrow> dmbus_sync_recv_loop_peer [] p t s = Some y"
proof (induction rule: dmbus_sync_recv_loop.raw_induct [rotated, consumes 1])
  case (1 f p t s y)
  show ?case
  proof (cases "msg_type p (buff s) \<noteq> word_of_int t")
    case False
    with "1.hyps" show ?thesis
      by (subst dmbus_sync_recv_loop_peer.simps) simp
  next
    case True
    with "1.hyps" obtain s1 m s2 where
      s: "pop_message p (handle_message p s) = Some s1" "sync_recv p s1 = Some (m, s2)"
      by (auto split: option.splits)
    show ?thesis
    proof (cases m)
      case False
      with True s "1.hyps" have y: "y = (False, s2)"
        by auto
      from True s False show ?thesis
        unfolding y by (subst dmbus_sync_recv_loop_peer.simps) simp
    next
      case m: True
      with True s "1.hyps" have "f p t s2 = Some y"
        by simp
      from "1.IH" [OF this] True s m show ?thesis
        by (subst dmbus_sync_recv_loop_peer.simps) simp
    qed
  qed
qed

lemma dmbus_sync_recv_loop_peer_Nil:
  "dmbus_sync_recv_loop_peer [] p t s = dmbus_sync_recv_loop p t s"
proof (cases "dmbus_sync_recv_loop p t s")
  case None
  with dmbus_sync_recv_loop_peer_Some [of "[]" p t s] show ?thesis
    by (cases "dmbus_sync_recv_loop_peer [] p t s") auto
next
  case (Some y)
  with dmbus_sync_recv_loop_Some show ?thesis by simp
qed

text \<open>
  One iteration of the loop on a buffer that holds the frame \<open>f\<close> and nothing else, while
  the peer sends \<open>f\<close> once more, in whatever pieces: the frame is dispatched and popped,
  the buffer is empty, and the read that follows fills it with \<open>f\<close> again. The state at the
  head of the loop is as it was, so that no iteration is the last.
\<close>

lemma sync_loop_peer_step:
  assumes "sizes_ok p" and "hdr_local p" and "frame p f"
    and "rx_alive sent" and "rx_bytes sent = f"
    and "buf_inv p s" and "pending s = f" and "rx_alive (rx s)" and "rx_bytes (rx s) = []"
  shows "msg_type p (buff s) = msg_type p f \<and>
    (\<exists>s1 s2. pop_message p (handle_message p s) = Some s1 \<and> len s1 = 0 \<and>
       sync_recv p (s1\<lparr>rx := rx s1 @ sent\<rparr>) = Some (True, s2) \<and>
       buf_inv p s2 \<and> pending s2 = f \<and> rx_alive (rx s2) \<and> rx_bytes (rx s2) = [])"
proof -
  let ?h = "handle_message p s"
  from assms(6,7) have l: "int (length f) = len s"
    using pending_length [OF assms(6)] by (simp add: buf_inv_def)
  then have l': "int (length f) \<le> len s" by simp
  from assms(7) have st: "pending s @ [] = f @ []" by simp
  note t = front_frame(1) [OF assms(2,3,6) st l']
  have hb: "buf_inv p ?h" "pending ?h @ [] = f @ []" "int (length f) \<le> len ?h"
    using assms(6,7) l by (simp_all add: buf_inv_def pending_def)
  from pop_message_front [OF assms(1,2,3) hb] obtain s1 where
    s1: "pop_message p ?h = Some s1" "buf_inv p s1" "pending s1 = []" "rx s1 = rx s"
    by auto
  from s1(2,3) pending_length [OF s1(2)] have z: "len s1 = 0"
    by (simp add: buf_inv_def)
  let ?s1 = "s1\<lparr>rx := rx s1 @ sent\<rparr>"
  have b1: "buf_inv p ?s1" "rx ?s1 = (rx s @ sent) @ []" "rx_alive (rx s @ sent)"
    "pending ?s1 @ rx_bytes (rx s @ sent) = f @ []"
    using s1 assms(4,5,8,9) by (simp_all add: buf_inv_def pending_def rx_alive_append rx_bytes_append)
  from sync_recv_front [OF assms(1,2,3) b1] obtain s2 e where
    s2: "sync_recv p ?s1 = Some (True, s2)" "buf_inv p s2" "rx s2 = e" "rx_alive e"
      "pending s2 @ rx_bytes e = f" "int (length f) \<le> len s2"
    by auto
  from s2(6) pending_length [OF s2(2)] have "length f \<le> length (pending s2)"
    by simp
  with s2(5) have "pending s2 = f" "rx_bytes e = []"
    by (metis append_eq_append_conv_if append_self_conv length_append le_antisym le_add1)+
  with t s1(1) z s2(1,2,3,4) show ?thesis by auto
qed

lemma sync_loop_peer_no_result:
  "dmbus_sync_recv_loop_peer sent p t s = Some y \<Longrightarrow>
   sizes_ok p \<Longrightarrow> hdr_local p \<Longrightarrow> frame p f \<Longrightarrow> msg_type p f \<noteq> word_of_int t \<Longrightarrow>
   rx_alive sent \<Longrightarrow> rx_bytes sent = f \<Longrightarrow>
   buf_inv p s \<Longrightarrow> pending s = f \<Longrightarrow> rx_alive (rx s) \<Longrightarrow> rx_bytes (rx s) = [] \<Longrightarrow> False"
proof (induction rule: dmbus_sync_recv_loop_peer.raw_induct [rotated, consumes 1])
  case (1 g sent p t s y)
  from sync_loop_peer_step [OF "1.prems"(1,2,3,5,6,7,8,9,10)] obtain s1 s2 where
    s: "msg_type p (buff s) = msg_type p f" "pop_message p (handle_message p s) = Some s1"
      "sync_recv p (s1\<lparr>rx := rx s1 @ sent\<rparr>) = Some (True, s2)"
      "buf_inv p s2" "pending s2 = f" "rx_alive (rx s2)" "rx_bytes (rx s2) = []"
    by blast
  from "1.hyps" s(1,2,3) "1.prems"(4) have "g sent p t s2 = Some y"
    by simp
  from "1.IH" [OF this "1.prems"(1,2,3,4,5,6) s(4,5,6,7)] show ?case .
qed

lemma sync_loop_peer_diverges:
  assumes "sizes_ok p" and "hdr_local p" and "frame p f" and "msg_type p f \<noteq> word_of_int t"
    and "rx_alive sent" and "rx_bytes sent = f"
    and "buf_inv p s" and "pending s = f" and "rx_alive (rx s)" and "rx_bytes (rx s) = []"
  shows "dmbus_sync_recv_loop_peer sent p t s = None"
proof (cases "dmbus_sync_recv_loop_peer sent p t s")
  case (Some y)
  from sync_loop_peer_no_result [OF Some assms] show ?thesis by simp
qed simp

lemmas y_defs = replicate_numeral_Cons y_head_def y_popped_def idle_def frame_Y_def all_ops_def
  proto8_sel le32_def
  incomplete_def complete_def lt_size_t_def lt_u32_def recv_buff_def
  handle_message_def pop_message_def memmove_def Let_def emit_def

lemma y_head_facts:
  "buf_inv proto8 y_head" "pending y_head = frame_Y" "rx y_head = []"
  "complete proto8 y_head" "msg_type proto8 (buff y_head) = 1"
  "unat (msg_len proto8 (buff y_head)) = 9"
  by (simp_all add: buf_inv_def pending_def y_defs)

lemma y_head_pop: "pop_message proto8 (handle_message proto8 y_head) = Some y_popped"
  by (simp add: y_defs)

lemma y_popped_sync:
  "sync_recv proto8 (y_popped\<lparr>rx := rx y_popped @ [Rx_data frame_Y]\<rparr>) =
     Some (True, y_head\<lparr>trace := [Call Dom0_input_event frame_Y]\<rparr>)"
  by (simp add: y_defs sync_recv.simps)

text \<open>
  C10, as the claim states it, fails for the loop of \<open>dmbus_sync_recv\<close>: an iteration of
  that loop is a dispatch, a pop and a \<open>sync_recv\<close>, and the read puts back what the pop
  took off. The buffer of \<open>y_head\<close> holds one whole frame of type 1, which declares nine
  bytes, one more than a header; the loop waits for type 2. Dispatch and pop bring the
  buffered length from 9 to 0; the peer has sent the same frame again, and \<open>sync_recv\<close>
  brings the length back to 9, with the same bytes in the buffer. With a peer that does so
  at each iteration the loop has no result.
\<close>

theorem sync_loop_refills_counterexample:
  "complete proto8 y_head \<and> hdr_size proto8 \<le> unat (msg_len proto8 (buff y_head)) \<and>
   msg_type proto8 (buff y_head) \<noteq> word_of_int 2 \<and>
   pop_message proto8 (handle_message proto8 y_head) = Some y_popped \<and>
   len y_popped < len y_head \<and>
   sync_recv proto8 (y_popped\<lparr>rx := rx y_popped @ [Rx_data frame_Y]\<rparr>) =
     Some (True, y_head\<lparr>trace := [Call Dom0_input_event frame_Y]\<rparr>) \<and>
   len (y_head\<lparr>trace := [Call Dom0_input_event frame_Y]\<rparr>) = len y_head \<and>
   dmbus_sync_recv_loop_peer [Rx_data frame_Y] proto8 2 y_head = None"
proof -
  have "dmbus_sync_recv_loop_peer [Rx_data frame_Y] proto8 2 y_head = None"
    by (rule sync_loop_peer_diverges [OF proto8_sizes_ok proto8_hdr_local yzx_frames(1) _ _ _
          y_head_facts(1,2)]) (simp_all add: yzx_frames y_head_facts(3), simp add: frame_Y_def)
  then show ?thesis
    by (simp add: y_head_facts y_head_pop y_popped_sync proto8_sel(1))
       (simp add: y_head_def y_popped_def)
qed

text \<open>
  C10, amended: a dispatch-and-pop step on a complete frame that declares at least a
  header's length shortens the buffered length by the declared length. If every complete
  frame met at the head of the loop declares at least a header's length, the dispatch
  loop of \<open>dmbus_fd_handler\<close> ends, with no whole frame left. The loop of \<open>dmbus_sync_recv\<close>
  reads after each dispatch-and-pop: when the buffer holds one frame \<open>f\<close> of another type
  than the expected one and the peer sends \<open>f\<close> again before each of these reads, an
  iteration ends with the buffered length it began with, in a state of which the same
  holds, and the loop never returns.
\<close>

theorem dispatch_loops_terminate:
  assumes "sizes_ok p" and "buf_inv p s"
  shows "(complete p s \<and> hdr_size p \<le> unat (msg_len p (buff s)) \<longrightarrow>
            (\<exists>s1. pop_message p (handle_message p s) = Some s1 \<and>
                  len s1 = len s - uint (msg_len p (buff s)) \<and> len s1 < len s)) \<and>
         ((\<forall>x. fd_front p s x \<and> complete p x \<longrightarrow> hdr_size p \<le> unat (msg_len p (buff x))) \<longrightarrow>
            (\<exists>s'. dmbus_fd_handler_dispatch p s = Some s' \<and> \<not> complete p s')) \<and>
         (hdr_local p \<and> frame p f \<and> msg_type p f \<noteq> word_of_int t \<and>
          rx_alive sent \<and> rx_bytes sent = f \<and>
          pending s = f \<and> rx_alive (rx s) \<and> rx_bytes (rx s) = [] \<longrightarrow>
            (\<exists>s1 s2. pop_message p (handle_message p s) = Some s1 \<and> len s1 < len s \<and>
               sync_recv p (s1\<lparr>rx := rx s1 @ sent\<rparr>) = Some (True, s2) \<and> len s2 = len s \<and>
               buf_inv p s2 \<and> pending s2 = f \<and> rx_alive (rx s2) \<and> rx_bytes (rx s2) = []) \<and>
            dmbus_sync_recv_loop_peer sent p t s = None)"
proof (intro conjI impI)
  assume "complete p s \<and> hdr_size p \<le> unat (msg_len p (buff s))"
  with dispatch_pop_decreases [OF assms]
  show "\<exists>s1. pop_message p (handle_message p s) = Some s1 \<and>
          len s1 = len s - uint (msg_len p (buff s)) \<and> len s1 < len s"
    by blast
next
  assume "\<forall>x. fd_front p s x \<and> complete p x \<longrightarrow> hdr_size p \<le> unat (msg_len p (buff x))"
  with fd_dispatch_terminates [OF assms]
  show "\<exists>s'. dmbus_fd_handler_dispatch p s = Some s' \<and> \<not> complete p s'"
    by blast
next
  assume a: "hdr_local p \<and> frame p f \<and> msg_type p f \<noteq> word_of_int t \<and>
    rx_alive sent \<and> rx_bytes sent = f \<and>
    pending s = f \<and> rx_alive (rx s) \<and> rx_bytes (rx s) = []"
  then have h: "hdr_local p" "frame p f" "rx_alive sent" "rx_bytes sent = f"
    and i: "pending s = f" "rx_alive (rx s)" "rx_bytes (rx s) = []"
    by simp_all
  from sync_loop_peer_step [OF assms(1) h assms(2) i] obtain s1 s2 where
    s: "pop_message p (handle_message p s) = Some s1" "len s1 = 0"
      "sync_recv p (s1\<lparr>rx := rx s1 @ sent\<rparr>) = Some (True, s2)"
      "buf_inv p s2" "pending s2 = f" "rx_alive (rx s2)" "rx_bytes (rx s2) = []"
    by blast
  from assms(1) h(2) have "0 < length f"
    by (auto simp: sizes_ok_def frame_def)
  moreover from pending_length [OF assms(2)] i(1) assms(2) have "len s = int (length f)"
    by (simp add: buf_inv_def)
  moreover from pending_length [OF s(4)] s(4,5) have "len s2 = int (length f)"
    by (simp add: buf_inv_def)
  ultimately have "len s1 < len s" "len s2 = len s"
    using s(2) by simp_all
  with s show "\<exists>s1 s2. pop_message p (handle_message p s) = Some s1 \<and> len s1 < len s \<and>
      sync_recv p (s1\<lparr>rx := rx s1 @ sent\<rparr>) = Some (True, s2) \<and> len s2 = len s \<and>
      buf_inv p s2 \<and> pending s2 = f \<and> rx_alive (rx s2) \<and> rx_bytes (rx s2) = []"
    by blast
  from a show "dmbus_sync_recv_loop_peer sent p t s = None"
    by (intro sync_loop_peer_diverges [OF assms(1) h(1,2) _ h(3,4) assms(2) i]) simp
qed

theorem dispatch_loops_terminate_witness:
  "sizes_ok proto8 \<and> buf_inv proto8 st12 \<and> complete proto8 st12 \<and>
   hdr_size proto8 \<le> unat (msg_len proto8 (buff st12)) \<and>
   pop_message proto8 (handle_message proto8 st12) = Some st12_popped \<and>
   len st12_popped < len st12 \<and>
   dmbus_fd_handler_dispatch proto8 st12 = Some st12_popped \<and>
   buf_inv proto8 y_head \<and> hdr_local proto8 \<and> frame proto8 frame_Y \<and>
   msg_type proto8 frame_Y \<noteq> word_of_int 2 \<and> pending y_head = frame_Y \<and> rx y_head = [] \<and>
   dmbus_sync_recv_loop_peer [Rx_data frame_Y] proto8 2 y_head = None"
proof -
  have b: "buf_inv proto8 st12"
    by (simp add: buf_inv_def st12_def idle_def proto8_sel(1,2))
  have h: "hdr_size proto8 \<le> unat (msg_len proto8 (buff st12))"
    by (simp add: msg_len_st12 proto8_sel(1))
  have f: "\<forall>x. fd_front proto8 st12 x \<and> complete proto8 x \<longrightarrow>
             hdr_size proto8 \<le> unat (msg_len proto8 (buff x))"
    using st12_fd_front h st12_complete(2) by blast
  have l: "len st12_popped < len st12"
    by (simp add: st12_def st12_popped_def)
  have d: "dmbus_fd_handler_dispatch proto8 st12 = Some st12_popped"
    by (simp add: dmbus_fd_handler_dispatch.simps [of _ st12]
        dmbus_fd_handler_dispatch.simps [of _ st12_popped] st12_complete st12_pop)
  have y: "rx_alive [Rx_data frame_Y]" "rx_bytes [Rx_data frame_Y] = frame_Y"
    "msg_type proto8 frame_Y \<noteq> word_of_int 2"
    by (simp_all add: yzx_frames) (simp add: frame_Y_def)
  from dispatch_loops_terminate [OF proto8_sizes_ok b] f h st12_complete(1)
  have "\<exists>s'. dmbus_fd_handler_dispatch proto8 st12 = Some s' \<and> \<not> complete proto8 s'"
    by blast
  moreover
  from dispatch_loops_terminate [OF proto8_sizes_ok y_head_facts(1),
      where f = frame_Y and t = 2 and sent = "[Rx_data frame_Y]"]
    proto8_hdr_local yzx_frames(1) y y_head_facts(2,3)
  have "dmbus_sync_recv_loop_peer [Rx_data frame_Y] proto8 2 y_head = None"
    by simp
  ultimately show ?thesis
    using proto8_sizes_ok b st12_complete(1) h st12_pop l d y_head_facts(1,2,3)
      proto8_hdr_local yzx_frames(1) y(3)
    by simp
qed

end
